theory Spec2Isabelle
  imports Complex_Main "HOL-Library.Char_ord" "HOL-Library.List_Lexorder" "HOL-Library.Log_Nat"
begin

section \<open>JavaScript values used by the gateway\<close>

text \<open>
  Strings are lists of 8-bit characters (the Latin-1 range of JavaScript's code units).
  An optional string parameter (\<^verbatim>\<open>threadTs?: string\<close>) is a \<open>string option\<close>; JavaScript's
  truthiness test on it fails for \<open>undefined\<close> and for the empty string.
\<close>

definition truthy :: "string option \<Rightarrow> bool" where
  "truthy v = (case v of None \<Rightarrow> False | Some s \<Rightarrow> s \<noteq> [])"

text \<open>
  A \<^verbatim>\<open>Date\<close> holds a time value, a whole number of milliseconds of magnitude at most
  8.64e15, or is an Invalid Date, whose \<^verbatim>\<open>getTime()\<close> is NaN.
\<close>

datatype js_date = Date int | InvalidDate

text \<open>
  A \<^verbatim>\<open>number\<close> is an IEEE 754 double: \<open>Double m e\<close> stands for the value \<open>m * 2 ^ e\<close>,
  which is a double when \<open>m\<close> has at most 53 bits, \<open>e\<close> is at least -1074 and the value
  lies below \<open>2 ^ 1024\<close>. One value has several such pairs; the comparisons below go by
  the value. The sign of zero is not kept: none of the operations used here tells the
  two zeros apart.
\<close>

datatype number = Double int int | PosInfinity | NegInfinity | NaN

definition valof :: "int \<Rightarrow> int \<Rightarrow> real" where
  "valof m e = real_of_int m * 2 powr real_of_int e"

text \<open>\<open>m / 2 ^ k\<close> rounded to the nearest whole number, a tie going to the even one.\<close>

definition round_half_even :: "int \<Rightarrow> nat \<Rightarrow> int" where
  "round_half_even m k =
     (let q = m div 2 ^ k; r = m mod 2 ^ k
      in if 2 * r < 2 ^ k then q
         else if 2 ^ k < 2 * r then q + 1
         else if even q then q else q + 1)"

text \<open>
  The double nearest to \<open>m * 2 ^ e\<close> (round to nearest, ties to even): the \<open>k\<close> low bits
  that fit neither the 53 bits of the significand nor the least exponent -1074 are
  rounded away, and a result of magnitude \<open>2 ^ 1024\<close> or more is an infinity.
\<close>

definition to_double :: "int \<Rightarrow> int \<Rightarrow> number" where
  "to_double m e =
     (let k = max (bitlen \<bar>m\<bar> - 53) (- 1074 - e);
          m' = (if 0 < k then round_half_even m (nat k) else m);
          e' = (if 0 < k then e + k else e)
      in if 1024 < bitlen \<bar>m'\<bar> + e' then (if 0 < m' then PosInfinity else NegInfinity)
         else Double m' e')"

definition sign_of :: "number \<Rightarrow> int" where
  "sign_of x = (case x of Double m e \<Rightarrow> sgn m | PosInfinity \<Rightarrow> 1 | NegInfinity \<Rightarrow> - 1 | NaN \<Rightarrow> 0)"

text \<open>\<^verbatim>\<open>x * y\<close>\<close>

fun js_mul :: "number \<Rightarrow> number \<Rightarrow> number" where
  "js_mul NaN y = NaN"
| "js_mul x NaN = NaN"
| "js_mul (Double m1 e1) (Double m2 e2) = to_double (m1 * m2) (e1 + e2)"
| "js_mul x y =
     (let s = sign_of x * sign_of y
      in if s = 0 then NaN else if 0 < s then PosInfinity else NegInfinity)"

text \<open>\<^verbatim>\<open>x - y\<close>\<close>

fun js_sub :: "number \<Rightarrow> number \<Rightarrow> number" where
  "js_sub NaN y = NaN"
| "js_sub x NaN = NaN"
| "js_sub (Double m1 e1) (Double m2 e2) =
     (let e = min e1 e2
      in to_double (m1 * 2 ^ nat (e1 - e) - m2 * 2 ^ nat (e2 - e)) e)"
| "js_sub PosInfinity y = (if y = PosInfinity then NaN else PosInfinity)"
| "js_sub NegInfinity y = (if y = NegInfinity then NaN else NegInfinity)"
| "js_sub x PosInfinity = NegInfinity"
| "js_sub x NegInfinity = PosInfinity"

text \<open>
  \<^verbatim>\<open>x < y\<close>, false when either side is NaN; \<^verbatim>\<open>x > y\<close> is \<^verbatim>\<open>y < x\<close>, and \<^verbatim>\<open>x <= y\<close>
  asks that neither side is NaN and \<^verbatim>\<open>y < x\<close> is false.
\<close>

fun js_lt :: "number \<Rightarrow> number \<Rightarrow> bool" where
  "js_lt NaN y = False"
| "js_lt x NaN = False"
| "js_lt (Double m1 e1) (Double m2 e2) =
     (let e = min e1 e2 in m1 * 2 ^ nat (e1 - e) < m2 * 2 ^ nat (e2 - e))"
| "js_lt x NegInfinity = False"
| "js_lt PosInfinity y = False"
| "js_lt x y = True"

definition js_gt :: "number \<Rightarrow> number \<Rightarrow> bool" where
  "js_gt x y = js_lt y x"

definition js_le :: "number \<Rightarrow> number \<Rightarrow> bool" where
  "js_le x y = (x \<noteq> NaN \<and> y \<noteq> NaN \<and> \<not> js_lt y x)"

text \<open>
  A \<^verbatim>\<open>Map<string, V>\<close> is an association list in insertion order. \<^verbatim>\<open>set\<close> replaces
  the value of a present key in place and appends an absent one; \<^verbatim>\<open>delete\<close> removes the
  key. A well-formed Map has distinct keys.
\<close>

type_synonym 'v js_map = "(string \<times> 'v) list"

definition map_get :: "'v js_map \<Rightarrow> string \<Rightarrow> 'v option" where
  "map_get m k = map_of m k"

fun map_set :: "string \<Rightarrow> 'v \<Rightarrow> 'v js_map \<Rightarrow> 'v js_map" where
  "map_set k v [] = [(k, v)]"
| "map_set k v ((k', v') # m) = (if k' = k then (k, v) # m else (k', v') # map_set k v m)"

definition map_delete :: "string \<Rightarrow> 'v js_map \<Rightarrow> 'v js_map" where
  "map_delete k m = filter (\<lambda>e. fst e \<noteq> k) m"

section \<open>Session store (claude-handler.ts)\<close>

record ConversationSession =
  userId :: string
  channelId :: string
  threadTs :: "string option"
  sessionId :: "string option"
  isActive :: bool
  lastActivity :: js_date

text \<open>\<^verbatim>\<open>getSessionKey\<close>: \<^verbatim>\<open>`${userId}-${channelId}-${threadTs || 'direct'}`\<close>.\<close>

definition getSessionKey :: "string \<Rightarrow> string \<Rightarrow> string option \<Rightarrow> string" where
  "getSessionKey uid cid ts =
     uid @ ''-'' @ cid @ ''-'' @ (if truthy ts then the ts else ''direct'')"

text \<open>
  \<^verbatim>\<open>now - session.lastActivity.getTime() > maxAge\<close>: the clock reading and the time
  value are whole numbers held in doubles, their difference is rounded like every
  result, and the comparison is that of doubles. With an Invalid Date the difference is
  NaN and the test is false.
\<close>

definition getTime :: "js_date \<Rightarrow> number" where
  "getTime d = (case d of Date t \<Rightarrow> Double t 0 | InvalidDate \<Rightarrow> NaN)"

definition session_expired :: "int \<Rightarrow> number \<Rightarrow> ConversationSession \<Rightarrow> bool" where
  "session_expired now maxAge session =
     js_gt (js_sub (Double now 0) (getTime (lastActivity session))) maxAge"

text \<open>\<^verbatim>\<open>maxAgeHours * 60 * 60 * 1000\<close>, three products from the left, each rounded.\<close>

definition maxAge_of :: "number \<Rightarrow> number" where
  "maxAge_of maxAgeHours =
     js_mul (js_mul (js_mul maxAgeHours (Double 60 0)) (Double 60 0)) (Double 1000 0)"

text \<open>
  \<^verbatim>\<open>cleanupInactiveSessions(maxAgeHours)\<close> at clock reading \<open>now\<close>: the early return for
  a limit of zero or less, then the loop over the entries of the table that deletes the
  key of every expired entry. \<open>maxAgeHours\<close> is any number, NaN and the infinities
  included; a call without argument passes 24.
\<close>

definition cleanupInactiveSessions ::
  "number \<Rightarrow> int \<Rightarrow> ConversationSession js_map \<Rightarrow> ConversationSession js_map" where
  "cleanupInactiveSessions maxAgeHours now sessions =
     (if js_le maxAgeHours (Double 0 0) then sessions
      else let maxAge = maxAge_of maxAgeHours
           in fold (\<lambda>(key, session) m.
                      if session_expired now maxAge session then map_delete key m else m)
                sessions sessions)"

section \<open>Permission mode store (bypass-mode-manager.ts)\<close>

datatype PermissionMode = Approval | Bypass | Auto

text \<open>\<^verbatim>\<open>channelId.startsWith('D')\<close>\<close>

definition startsWith :: "string \<Rightarrow> string \<Rightarrow> bool" where
  "startsWith s p = (take (length p) s = p)"

definition getKey :: "string \<Rightarrow> string option \<Rightarrow> string option \<Rightarrow> string" where
  "getKey cid ts uid =
     (if truthy ts then cid @ ''-'' @ the ts
      else if truthy uid \<and> startsWith cid ''D'' then cid @ ''-'' @ the uid
      else cid)"

definition getMode ::
  "PermissionMode js_map \<Rightarrow> string \<Rightarrow> string option \<Rightarrow> string option \<Rightarrow> PermissionMode" where
  "getMode modes cid ts uid =
     (case (if truthy ts then map_get modes (getKey cid ts None) else None) of
        Some threadMode \<Rightarrow> threadMode
      | None \<Rightarrow>
          (case map_get modes (getKey cid None uid) of
             Some m \<Rightarrow> m
           | None \<Rightarrow> Approval))"

definition isBypassMode ::
  "PermissionMode js_map \<Rightarrow> string \<Rightarrow> string option \<Rightarrow> string option \<Rightarrow> bool" where
  "isBypassMode modes cid ts uid = (getMode modes cid ts uid = Bypass)"

section \<open>Query options built by streamQuery (claude-handler.ts)\<close>

record SlackContext =
  channel :: string
  thread_ts :: "string option"
  user :: string

datatype sdk_permission_mode = bypassPermissions | default_mode

text \<open>
  The permission callback handed to the agent runtime: the only one \<^verbatim>\<open>streamQuery\<close>
  installs is \<^verbatim>\<open>permissionHandler.createCanUseToolCallback(slackContext)\<close>.
\<close>

datatype can_use_tool = CanUseToolCallback SlackContext

record query_options =
  outputFormat :: string
  permissionMode :: sdk_permission_mode
  canUseTool :: "can_use_tool option"
  cwd :: "string option"
  mcpServers :: "string list"
  allowedTools :: "string list"
  resume :: "string option"

text \<open>
  The options \<^verbatim>\<open>streamQuery\<close> passes to \<^verbatim>\<open>query\<close>. The MCP manager is not part of the
  sources at hand: its server names and default tool list are parameters.
\<close>

definition streamQuery_options ::
  "PermissionMode js_map \<Rightarrow> string list \<Rightarrow> string list \<Rightarrow>
   ConversationSession option \<Rightarrow> string option \<Rightarrow> SlackContext option \<Rightarrow> query_options" where
  "streamQuery_options modes servers defaultMcpTools session workingDirectory slackContext =
     (let bypass =
            (case slackContext of
               Some ctx \<Rightarrow>
                 isBypassMode modes (channel ctx) (thread_ts ctx)
                   (if startsWith (channel ctx) ''D'' then Some (user ctx) else None)
             | None \<Rightarrow> True);
          options = \<lparr> outputFormat = ''stream-json'',
                      permissionMode = (if bypass then bypassPermissions else default_mode),
                      canUseTool = None, cwd = None, mcpServers = [], allowedTools = [],
                      resume = None \<rparr>;
          options = (case slackContext of
                       Some ctx \<Rightarrow>
                         if \<not> bypass then options\<lparr>canUseTool := Some (CanUseToolCallback ctx)\<rparr>
                         else options
                     | None \<Rightarrow> options);
          options = (if truthy workingDirectory then options\<lparr>cwd := workingDirectory\<rparr>
                     else options);
          options = (if servers \<noteq> [] then options\<lparr>mcpServers := servers\<rparr> else options);
          options = (if mcpServers options \<noteq> [] \<and> defaultMcpTools \<noteq> []
                     then options\<lparr>allowedTools := defaultMcpTools\<rparr> else options);
          options = (case session of
                       Some s \<Rightarrow> if truthy (sessionId s) then options\<lparr>resume := sessionId s\<rparr>
                                 else options
                     | None \<Rightarrow> options)
      in options)"

section \<open>Regular expressions\<close>

text \<open>
  The fragment of JavaScript regular expressions the sources use: literal characters,
  character classes and their complements, sequence, alternative, the star, and the
  anchors \<^verbatim>\<open>^\<close> and \<^verbatim>\<open>$\<close> (no multiline flag: start and end of the input).
\<close>

datatype rx = Eps | Lit char | Cls "char list" | NCls "char list"
  | Seq rx rx | Alt rx rx | Star rx | Bol | Eol

text \<open>
  With the flag \<^verbatim>\<open>i\<close> two characters match when their canonical (upper case) forms are
  equal. In the Latin-1 range the canonical form changes the letters a to z and the
  accented letters 0xE0 to 0xFE other than the division sign 0xF7.
\<close>

definition is_lower_code :: "nat \<Rightarrow> bool" where
  "is_lower_code n = ((97 \<le> n \<and> n \<le> 122) \<or> (224 \<le> n \<and> n \<le> 254 \<and> n \<noteq> 247))"

definition is_upper_code :: "nat \<Rightarrow> bool" where
  "is_upper_code n = ((65 \<le> n \<and> n \<le> 90) \<or> (192 \<le> n \<and> n \<le> 222 \<and> n \<noteq> 215))"

definition canonicalize :: "char \<Rightarrow> char" where
  "canonicalize c = (if is_lower_code (of_char c) then char_of (of_char c - 32 :: nat) else c)"

definition chr_eq :: "bool \<Rightarrow> char \<Rightarrow> char \<Rightarrow> bool" where
  "chr_eq ci p x = (if ci then canonicalize p = canonicalize x else p = x)"

text \<open>
  \<open>rxm ci n r s\<close> lists the rests of \<open>s\<close> left after each way of matching \<open>r\<close> at the
  front of \<open>s\<close>; \<open>n\<close> is the length of the whole input, so that \<open>s\<close> is at the start of
  the input when its length is \<open>n\<close>. An iteration of a star that consumes nothing is
  dropped, as in JavaScript.
\<close>

function rxm :: "bool \<Rightarrow> nat \<Rightarrow> rx \<Rightarrow> string \<Rightarrow> string list" where
  "rxm ci n Eps s = [s]"
| "rxm ci n (Lit c) s = (case s of [] \<Rightarrow> [] | x # t \<Rightarrow> if chr_eq ci c x then [t] else [])"
| "rxm ci n (Cls cs) s =
     (case s of [] \<Rightarrow> [] | x # t \<Rightarrow> if list_ex (\<lambda>c. chr_eq ci c x) cs then [t] else [])"
| "rxm ci n (NCls cs) s =
     (case s of [] \<Rightarrow> [] | x # t \<Rightarrow> if list_ex (\<lambda>c. chr_eq ci c x) cs then [] else [t])"
| "rxm ci n (Seq r1 r2) s = concat (map (rxm ci n r2) (rxm ci n r1 s))"
| "rxm ci n (Alt r1 r2) s = rxm ci n r1 s @ rxm ci n r2 s"
| "rxm ci n (Star r) s =
     s # concat (map (rxm ci n (Star r)) (filter (\<lambda>t. length t < length s) (rxm ci n r s)))"
| "rxm ci n Bol s = (if length s = n then [s] else [])"
| "rxm ci n Eol s = (if s = [] then [s] else [])"
  by pat_completeness auto
termination
  by (relation "measures [\<lambda>(ci, n, r, s). size r, \<lambda>(ci, n, r, s). length s]") auto

declare rxm.simps(7) [simp del]

fun tails :: "'a list \<Rightarrow> 'a list list" where
  "tails [] = [[]]"
| "tails (x # xs) = (x # xs) # tails xs"

text \<open>\<^verbatim>\<open>pattern.test(s)\<close>: the pattern matches at some position of \<open>s\<close>.\<close>

definition rx_test :: "bool \<Rightarrow> rx \<Rightarrow> string \<Rightarrow> bool" where
  "rx_test ci r s = list_ex (\<lambda>t. rxm ci (length s) r t \<noteq> []) (tails s)"

definition Str :: "string \<Rightarrow> rx" where
  "Str s = foldr (\<lambda>c r. Seq (Lit c) r) s Eps"

definition seqs :: "rx list \<Rightarrow> rx" where
  "seqs rs = foldr Seq rs Eps"

definition alts :: "rx list \<Rightarrow> rx" where
  "alts rs = foldr Alt (butlast rs) (last rs)"

definition Plus :: "rx \<Rightarrow> rx" where
  "Plus r = Seq r (Star r)"

definition Opt :: "rx \<Rightarrow> rx" where
  "Opt r = Alt r Eps"

text \<open>
  The white space of \<^verbatim>\<open>\s\<close> and of \<^verbatim>\<open>trim()\<close> in the Latin-1 range: tab, line feed,
  vertical tab, form feed, carriage return, space and the no-break space.
\<close>

definition white :: "char list" where
  "white = [CHR 0x09, CHR 0x0A, CHR 0x0B, CHR 0x0C, CHR 0x0D, CHR 0x20, CHR 0xA0]"

definition rx_s :: rx where
  "rx_s = Cls white"

text \<open>The dot matches every character but the line terminators.\<close>

definition rx_dot :: rx where
  "rx_dot = NCls [CHR 0x0A, CHR 0x0D]"

definition trim :: "string \<Rightarrow> string" where
  "trim s = rev (dropWhile (\<lambda>c. c \<in> set white) (rev (dropWhile (\<lambda>c. c \<in> set white) s)))"

text \<open>
  \<^verbatim>\<open>toLowerCase()\<close> in the Latin-1 range: the letters A to Z and the accented capitals
  0xC0 to 0xDE other than the multiplication sign 0xD7.
\<close>

definition toLowerCase_char :: "char \<Rightarrow> char" where
  "toLowerCase_char c = (if is_upper_code (of_char c) then char_of (of_char c + 32 :: nat) else c)"

definition toLowerCase :: "string \<Rightarrow> string" where
  "toLowerCase s = map toLowerCase_char s"

section \<open>Mode commands (bypass-mode-manager.ts)\<close>

text \<open>
  The six patterns of \<^verbatim>\<open>parseModeCommand\<close> have one shape,
  \<^verbatim>\<open>/^word\s+(on|enable|enabled|true|1)$/i\<close> and
  \<^verbatim>\<open>/^word\s+(off|disable|disabled|false|0)$/i\<close>.
\<close>

definition on_words :: "string list" where
  "on_words = [''on'', ''enable'', ''enabled'', ''true'', ''1'']"

definition off_words :: "string list" where
  "off_words = [''off'', ''disable'', ''disabled'', ''false'', ''0'']"

definition command_rx :: "string \<Rightarrow> string list \<Rightarrow> rx" where
  "command_rx word args = seqs [Bol, Str word, Plus rx_s, alts (map Str args), Eol]"

definition parseModeCommand :: "string \<Rightarrow> PermissionMode option" where
  "parseModeCommand text =
     (let trimmed = toLowerCase (trim text) in
      if rx_test True (command_rx ''auto'' on_words) trimmed then Some Auto
      else if rx_test True (command_rx ''auto'' off_words) trimmed then Some Approval
      else if rx_test True (command_rx ''bypass'' on_words) trimmed then Some Bypass
      else if rx_test True (command_rx ''bypass'' off_words) trimmed then Some Approval
      else if rx_test True (command_rx ''approval'' on_words) trimmed then Some Approval
      else if rx_test True (command_rx ''approval'' off_words) trimmed then Some Bypass
      else None)"

text \<open>A plain character: a lower case letter a to z or a digit.\<close>

definition plain :: "char \<Rightarrow> bool" where
  "plain p = ((97 \<le> (of_char p :: nat) \<and> (of_char p :: nat) \<le> 122) \<or>
              (48 \<le> (of_char p :: nat) \<and> (of_char p :: nat) \<le> 57))"

text \<open>
  The shape of a mode command in words: the keyword, then at least one white-space
  character, then one of the arguments, and nothing else.
\<close>

definition command_shape :: "string \<Rightarrow> string \<Rightarrow> string list \<Rightarrow> bool" where
  "command_shape s word args =
     (let rest = drop (length word) s;
          gap = takeWhile (\<lambda>c. c \<in> set white) rest;
          arg = dropWhile (\<lambda>c. c \<in> set white) rest
      in take (length word) s = word \<and> gap \<noteq> [] \<and> arg \<in> set args)"

section \<open>Danger classifier (permission-handler.ts)\<close>

text \<open>
  The value of a property of a tool input (\<^verbatim>\<open>Record<string, unknown>\<close>): a string, a
  number, a boolean, \<^verbatim>\<open>null\<close>, or an object or array. An absent property is \<open>None\<close> of
  the lookup.
\<close>

datatype jval = JStr string | JNum int | JBool bool | JNull | JObject

type_synonym tool_input = "(string \<times> jval) list"

definition js_truthy :: "jval \<Rightarrow> bool" where
  "js_truthy v =
     (case v of JStr s \<Rightarrow> s \<noteq> [] | JNum n \<Rightarrow> n \<noteq> 0 | JBool b \<Rightarrow> b | JNull \<Rightarrow> False
      | JObject \<Rightarrow> True)"

definition backslash :: char where
  "backslash = CHR 0x5C"

definition dquote :: char where
  "dquote = CHR 0x22"

text \<open>The text of a pattern, written as its pieces between the backslashes.\<close>

fun bsl :: "string list \<Rightarrow> string" where
  "bsl [] = []"
| "bsl [p] = p"
| "bsl (p # q # ps) = p @ [backslash] @ bsl (q # ps)"

text \<open>
  \<^verbatim>\<open>DANGEROUS_BASH_PATTERNS\<close>, in the order of the source: each pattern with the text
  \<^verbatim>\<open>pattern.toString()\<close> gives.
\<close>

definition DANGEROUS_BASH_PATTERNS :: "(string \<times> rx) list" where
  "DANGEROUS_BASH_PATTERNS =
    [(bsl [''/rm'', ''s+(-[rRf]+'', ''s+)*[^'', ''s]*('', ''*|'', ''/'', ''s*$|~|'', ''.'', ''.)/''],
      seqs [Str ''rm'', Plus rx_s,
            Star (seqs [Lit (CHR ''-''), Plus (Cls ''rRf''), Plus rx_s]),
            Star (NCls white),
            alts [Lit (CHR ''*''), seqs [Lit (CHR ''/''), Star rx_s, Eol], Lit (CHR ''~''),
                  Str ''..'']]),
     (bsl [''/rm'', ''s+-[rRf]*'', ''s+'', ''//''],
      seqs [Str ''rm'', Plus rx_s, Lit (CHR ''-''), Star (Cls ''rRf''), Plus rx_s,
            Lit (CHR ''/'')]),
     (bsl [''/git'', ''s+push'', ''s+.*--force/''],
      seqs [Str ''git'', Plus rx_s, Str ''push'', Plus rx_s, Star rx_dot, Str ''--force'']),
     (bsl [''/git'', ''s+push'', ''s+-f/''],
      seqs [Str ''git'', Plus rx_s, Str ''push'', Plus rx_s, Str ''-f'']),
     (bsl [''/git'', ''s+reset'', ''s+--hard/''],
      seqs [Str ''git'', Plus rx_s, Str ''reset'', Plus rx_s, Str ''--hard'']),
     (bsl [''/git'', ''s+clean'', ''s+-[fdx]/''],
      seqs [Str ''git'', Plus rx_s, Str ''clean'', Plus rx_s, Lit (CHR ''-''), Cls ''fdx'']),
     (bsl [''/git'', ''s+checkout'', ''s+'', ''.'', ''s*$/''],
      seqs [Str ''git'', Plus rx_s, Str ''checkout'', Plus rx_s, Lit (CHR ''.''), Star rx_s, Eol]),
     (bsl [''/git'', ''s+restore'', ''s+'', ''.'', ''s*$/''],
      seqs [Str ''git'', Plus rx_s, Str ''restore'', Plus rx_s, Lit (CHR ''.''), Star rx_s, Eol]),
     (bsl [''/sudo'', ''s+/''],
      seqs [Str ''sudo'', Plus rx_s]),
     (bsl [''/chmod'', ''s+(-R'', ''s+)?777/''],
      seqs [Str ''chmod'', Plus rx_s, Opt (seqs [Str ''-R'', Plus rx_s]), Str ''777'']),
     (bsl [''/chown'', ''s+-R/''],
      seqs [Str ''chown'', Plus rx_s, Str ''-R'']),
     (bsl [''/curl'', ''s+[^|]*'', ''|'', ''s*(sh|bash|zsh)/''],
      seqs [Str ''curl'', Plus rx_s, Star (NCls ''|''), Lit (CHR ''|''), Star rx_s,
            alts [Str ''sh'', Str ''bash'', Str ''zsh'']]),
     (bsl [''/wget'', ''s+[^|]*'', ''|'', ''s*(sh|bash|zsh)/''],
      seqs [Str ''wget'', Plus rx_s, Star (NCls ''|''), Lit (CHR ''|''), Star rx_s,
            alts [Str ''sh'', Str ''bash'', Str ''zsh'']]),
     (bsl [''/^'', ''s*env'', ''s*$/''],
      seqs [Bol, Star rx_s, Str ''env'', Star rx_s, Eol]),
     (bsl [''/^'', ''s*printenv'', ''s*$/''],
      seqs [Bol, Star rx_s, Str ''printenv'', Star rx_s, Eol]),
     (bsl [''/cat'', ''s+[^'', ''s]*'', ''.env/''],
      seqs [Str ''cat'', Plus rx_s, Star (NCls white), Str ''.env'']),
     (bsl [''/kill'', ''s+-9'', ''s+/''],
      seqs [Str ''kill'', Plus rx_s, Str ''-9'', Plus rx_s]),
     (bsl [''/pkill'', ''s+/''],
      seqs [Str ''pkill'', Plus rx_s]),
     (bsl [''/killall'', ''s+/''],
      seqs [Str ''killall'', Plus rx_s]),
     (bsl [''/launchctl'', ''s+(unload|remove|bootout)/''],
      seqs [Str ''launchctl'', Plus rx_s, alts [Str ''unload'', Str ''remove'', Str ''bootout'']]),
     (bsl [''/npm'', ''s+publish/''],
      seqs [Str ''npm'', Plus rx_s, Str ''publish'']),
     (bsl [''/yarn'', ''s+publish/''],
      seqs [Str ''yarn'', Plus rx_s, Str ''publish'']),
     (bsl [''/mkfs'', ''./''],
      Str ''mkfs.''),
     (bsl [''/dd'', ''s+if=/''],
      seqs [Str ''dd'', Plus rx_s, Str ''if='']),
     (bsl [''/fdisk/''],
      Str ''fdisk'')]"

record danger_result =
  dangerous :: bool
  danger_reason :: "string option"

text \<open>\<^verbatim>\<open>isDangerousBashCommand\<close>: the first pattern of the list that matches decides.\<close>

fun first_match :: "(string \<times> rx) list \<Rightarrow> string \<Rightarrow> danger_result" where
  "first_match [] command = \<lparr>dangerous = False, danger_reason = None\<rparr>"
| "first_match ((src, pattern) # ps) command =
     (if rx_test False pattern command
      then \<lparr>dangerous = True,
            danger_reason = Some (''Command matches dangerous pattern: '' @ src)\<rparr>
      else first_match ps command)"

definition isDangerousBashCommand :: "string \<Rightarrow> danger_result" where
  "isDangerousBashCommand command = first_match DANGEROUS_BASH_PATTERNS command"

text \<open>
  Node's POSIX \<^verbatim>\<open>path.resolve\<close>. The arguments are read from the right until an absolute
  one is met, the process's current directory \<open>curdir\<close> coming last; empty arguments are
  skipped. The joined path is then normalised: empty segments and \<^verbatim>\<open>.\<close> are dropped and
  \<^verbatim>\<open>..\<close> removes the segment before it (at the root of an absolute path it is dropped).
\<close>

fun split_path :: "string \<Rightarrow> string list" where
  "split_path [] = [[]]"
| "split_path (c # cs) =
     (if c = CHR ''/'' then [] # split_path cs
      else (case split_path cs of [] \<Rightarrow> [[c]] | s # ss \<Rightarrow> (c # s) # ss))"

fun join_path :: "string list \<Rightarrow> string" where
  "join_path [] = []"
| "join_path [s] = s"
| "join_path (s # t # ss) = s @ ''/'' @ join_path (t # ss)"

text \<open>\<open>normalize_segments allowAboveRoot acc segs\<close>: \<open>acc\<close> holds the result so far, last segment first.\<close>

fun normalize_segments :: "bool \<Rightarrow> string list \<Rightarrow> string list \<Rightarrow> string list" where
  "normalize_segments up acc [] = rev acc"
| "normalize_segments up acc (s # segs) =
     (if s = [] \<or> s = ''.'' then normalize_segments up acc segs
      else if s = ''..'' then
        (case acc of
           [] \<Rightarrow> normalize_segments up (if up then [''..''] else []) segs
         | a # acc' \<Rightarrow>
             if a = ''..'' then normalize_segments up (if up then ''..'' # acc else acc) segs
             else normalize_segments up acc' segs)
      else normalize_segments up (s # acc) segs)"

text \<open>\<open>resolve_parts\<close> takes the paths from the right: the last argument first, \<open>curdir\<close> last.\<close>

fun resolve_parts :: "string list \<Rightarrow> string \<times> bool" where
  "resolve_parts [] = ([], False)"
| "resolve_parts (p # ps) =
     (if p = [] then resolve_parts ps
      else if hd p = CHR ''/'' then (p @ ''/'', True)
      else (case resolve_parts ps of (r, a) \<Rightarrow> (r @ p @ ''/'', a)))"

definition path_resolve :: "string \<Rightarrow> string list \<Rightarrow> string" where
  "path_resolve curdir args =
     (case resolve_parts (rev args @ [curdir]) of
        (resolvedPath, resolvedAbsolute) \<Rightarrow>
          (let normal = join_path (normalize_segments (\<not> resolvedAbsolute) [] (split_path resolvedPath))
           in if resolvedAbsolute then ''/'' @ normal
              else if normal \<noteq> [] then normal else ''.''))"

definition isWithinWorkingDirectory :: "string \<Rightarrow> string \<Rightarrow> string \<Rightarrow> bool" where
  "isWithinWorkingDirectory curdir filePath workingDirectory =
     (let resolvedPath = path_resolve curdir [workingDirectory, filePath];
          resolvedWorkingDir = path_resolve curdir [workingDirectory]
      in startsWith resolvedPath (resolvedWorkingDir @ ''/'') \<or> resolvedPath = resolvedWorkingDir)"

record safety_check =
  safe :: bool
  reason :: "string option"

datatype js_error = TypeError

text \<open>
  \<^verbatim>\<open>checkAutoModeSafety\<close>. A truthy \<^verbatim>\<open>file_path\<close> that is not a string makes
  \<^verbatim>\<open>path.resolve\<close> throw a TypeError.
\<close>

definition checkAutoModeSafety ::
  "string \<Rightarrow> string \<Rightarrow> tool_input \<Rightarrow> string option \<Rightarrow> js_error + safety_check" where
  "checkAutoModeSafety curdir toolName input workingDirectory =
     (let result =
            (case (toolName = ''Bash'', map_of input ''command'') of
               (True, Some (JStr command)) \<Rightarrow> isDangerousBashCommand command
             | _ \<Rightarrow> \<lparr>dangerous = False, danger_reason = None\<rparr>)
      in if dangerous result then Inr \<lparr>safe = False, reason = danger_reason result\<rparr>
         else if truthy workingDirectory \<and>
                 (toolName = ''Write'' \<or> toolName = ''Edit'' \<or> toolName = ''MultiEdit'')
         then (case map_of input ''file_path'' of
                 None \<Rightarrow> Inr \<lparr>safe = True, reason = None\<rparr>
               | Some (JStr filePath) \<Rightarrow>
                   if filePath \<noteq> [] \<and> \<not> isWithinWorkingDirectory curdir filePath (the workingDirectory)
                   then Inr \<lparr>safe = False,
                             reason = Some (''File path '' @ [dquote] @ filePath @ [dquote] @
                                            '' is outside working directory '' @ [dquote] @
                                            the workingDirectory @ [dquote])\<rparr>
                   else Inr \<lparr>safe = True, reason = None\<rparr>
               | Some v \<Rightarrow>
                   if js_truthy v then Inl TypeError else Inr \<lparr>safe = True, reason = None\<rparr>)
         else Inr \<lparr>safe = True, reason = None\<rparr>)"

section \<open>Approval coordinator (permission-handler.ts)\<close>

datatype Behavior = Allow | Deny

record PermissionResult =
  behavior :: Behavior
  updatedInput :: "tool_input option"
  message :: "string option"

text \<open>
  What \<^verbatim>\<open>waitForApproval\<close> resolves with: the object built by the timeout or abort
  branch, or whatever \<^verbatim>\<open>JSON.parse\<close> made of the approval file. \<^verbatim>\<open>JSON.parse\<close> is a
  parameter \<open>parse\<close> of the model, \<open>None\<close> when it throws.
\<close>

record approval_response =
  r_behavior :: string
  r_updatedInput :: "tool_input option"
  r_message :: "string option"

text \<open>Messages sent through the Slack client.\<close>

datatype element = Button string string string string

datatype block = Section string | Actions "element list" | Context string

record chat_message =
  msg_channel :: string
  msg_thread_ts :: "string option"
  msg_ts :: "string option"
  msg_blocks :: "block list"
  msg_text :: string

datatype slack_call = PostMessage chat_message | Update chat_message

text \<open>The outcome of \<^verbatim>\<open>chat.postMessage\<close>: it throws, or returns \<^verbatim>\<open>{ts?, channel}\<close>.\<close>

datatype post_outcome = PostFailed | Posted "string option" string

definition nl :: string where
  "nl = [CHR 0x0A]"

definition bt :: string where
  "bt = [CHR 0x60]"

text \<open>The emoji of the message texts, as their UTF-8 bytes.\<close>

definition emoji_lock :: string where
  "emoji_lock = [CHR 0xF0, CHR 0x9F, CHR 0x94, CHR 0x90]"

definition emoji_check :: string where
  "emoji_check = [CHR 0xE2, CHR 0x9C, CHR 0x85]"

definition emoji_cross :: string where
  "emoji_cross = [CHR 0xE2, CHR 0x9D, CHR 0x8C]"


definition mentionText :: "SlackContext \<Rightarrow> string" where
  "mentionText ctx = (if user ctx \<noteq> [] then ''<@'' @ user ctx @ ''> '' else [])"

text \<open>
  The request posted by \<^verbatim>\<open>createCanUseToolCallback\<close>; \<open>shown\<close> is
  \<^verbatim>\<open>JSON.stringify(input, null, 2)\<close>.
\<close>

definition approval_request :: "SlackContext \<Rightarrow> string \<Rightarrow> string \<Rightarrow> string \<Rightarrow> chat_message" where
  "approval_request ctx toolName shown approvalId =
     \<lparr>msg_channel = channel ctx, msg_thread_ts = thread_ts ctx, msg_ts = None,
      msg_blocks =
        [Section (mentionText ctx @ emoji_lock @ '' *Permission Request*'' @ nl @ nl @
                  ''Claude wants to use the tool: '' @ bt @ toolName @ bt @ nl @ nl @
                  ''*Tool Parameters:*'' @ nl @ bt @ bt @ bt @ ''json'' @ nl @ shown @ nl @
                  bt @ bt @ bt),
         Actions [Button (emoji_check @ '' Approve'') ''primary'' ''approve_tool'' approvalId,
                  Button (emoji_cross @ '' Deny'') ''danger'' ''deny_tool'' approvalId],
         Context (''Requested by: <@'' @ user ctx @ ''> | Tool: '' @ toolName)],
      msg_text = mentionText ctx @ ''Permission request for '' @ toolName\<rparr>"

definition approval_update ::
  "string \<Rightarrow> string \<Rightarrow> string \<Rightarrow> string \<Rightarrow> bool \<Rightarrow> chat_message" where
  "approval_update chan ts toolName shown allowed =
     \<lparr>msg_channel = chan, msg_thread_ts = None, msg_ts = Some ts,
      msg_blocks =
        [Section (emoji_lock @ '' *Permission Request* - '' @
                  (if allowed then emoji_check @ '' Approved'' else emoji_cross @ '' Denied'') @
                  nl @ nl @ ''Tool: '' @ bt @ toolName @ bt @ nl @ nl @
                  ''*Tool Parameters:*'' @ nl @ bt @ bt @ bt @ ''json'' @ nl @ shown @ nl @
                  bt @ bt @ bt),
         Context ((if allowed then ''Approved'' else ''Denied'') @ '' by user | Tool: '' @ toolName)],
      msg_text = ''Permission '' @ (if allowed then ''approved'' else ''denied'') @ '' for '' @
                 toolName\<rparr>"

subsection \<open>Waiting for the approval file\<close>

text \<open>
  The state of one \<^verbatim>\<open>waitForApproval\<close> call: the variables of its closure, the abort
  signal, and the approval file of its ticket (\<open>None\<close>: no such file).
\<close>

record wait_state =
  resolved :: bool
  aborted :: bool
  listening :: bool
  timer :: bool
  pollCount :: nat
  outcome :: "approval_response option"
  approvalFile :: "string option"

text \<open>\<^verbatim>\<open>cleanup()\<close>: clear the pending poll timer and mark the wait resolved.\<close>

definition cleanup :: "wait_state \<Rightarrow> wait_state" where
  "cleanup st = st\<lparr>timer := False, resolved := True\<rparr>"

text \<open>\<^verbatim>\<open>resolve(v)\<close>: only the first call settles the promise.\<close>

definition resolve :: "approval_response \<Rightarrow> wait_state \<Rightarrow> wait_state" where
  "resolve v st = (if outcome st = None then st\<lparr>outcome := Some v\<rparr> else st)"

definition abortHandler :: "wait_state \<Rightarrow> wait_state" where
  "abortHandler st =
     (if \<not> resolved st
      then resolve \<lparr>r_behavior = ''deny'', r_updatedInput = None,
                    r_message = Some ''Request was aborted''\<rparr> (cleanup st)
      else st)"

text \<open>
  The part of \<^verbatim>\<open>checkApproval\<close> both revisions share: read the approval file if it is
  there; a record that parses is consumed, the file deleted and the promise resolved with
  it; otherwise the next poll is scheduled.
\<close>

definition poll_file :: "(string \<Rightarrow> approval_response option) \<Rightarrow> wait_state \<Rightarrow> wait_state" where
  "poll_file parse st =
     (case approvalFile st of
        None \<Rightarrow> st\<lparr>timer := True\<rparr>
      | Some content \<Rightarrow>
          (case parse content of
             Some response \<Rightarrow>
               resolve response ((cleanup (st\<lparr>approvalFile := None\<rparr>))\<lparr>listening := False\<rparr>)
           | None \<Rightarrow> st\<lparr>timer := True\<rparr>))"

text \<open>
  \<^verbatim>\<open>checkApproval\<close> of the revision without a deadline (the one that also has the auto
  mode callback).
\<close>

definition checkApproval :: "(string \<Rightarrow> approval_response option) \<Rightarrow> wait_state \<Rightarrow> wait_state" where
  "checkApproval parse st =
     (if resolved st \<or> aborted st then st
      else poll_file parse (st\<lparr>pollCount := pollCount st + 1\<rparr>))"

text \<open>
  \<^verbatim>\<open>checkApproval\<close> of the revision with the deadline: \<open>now\<close> is the reading of
  \<^verbatim>\<open>Date.now()\<close> at this poll.
\<close>

definition timeout :: int where
  "timeout = 5 * 60 * 1000"

definition checkApproval_timeout ::
  "(string \<Rightarrow> approval_response option) \<Rightarrow> int \<Rightarrow> int \<Rightarrow> wait_state \<Rightarrow> wait_state" where
  "checkApproval_timeout parse startTime now st =
     (if resolved st \<or> aborted st then st
      else let st = st\<lparr>pollCount := pollCount st + 1\<rparr>
           in if now - startTime > timeout
              then resolve \<lparr>r_behavior = ''deny'', r_updatedInput = None,
                            r_message = Some ''Permission request timed out''\<rparr>
                     (((cleanup st)\<lparr>listening := False\<rparr>)\<lparr>approvalFile := None\<rparr>)
              else poll_file parse st)"

text \<open>
  What can happen while the promise is pending: the poll timer fires at a clock reading,
  the caller's signal aborts, or the click handler of another process writes the
  approval file.
\<close>

datatype event = Tick int | Abort | Deposit string

text \<open>
  One event. A timer that was cleared does not fire; the abort event is dispatched once,
  to the handler if it is still registered. \<open>deadline\<close> selects the revision: with
  \<open>Some startTime\<close> the poll is \<open>checkApproval_timeout\<close>.
\<close>

definition poll ::
  "(string \<Rightarrow> approval_response option) \<Rightarrow> int option \<Rightarrow> int \<Rightarrow> wait_state \<Rightarrow> wait_state" where
  "poll parse deadline now st =
     (case deadline of
        None \<Rightarrow> checkApproval parse st
      | Some startTime \<Rightarrow> checkApproval_timeout parse startTime now st)"

fun step ::
  "(string \<Rightarrow> approval_response option) \<Rightarrow> int option \<Rightarrow> wait_state \<Rightarrow> event \<Rightarrow> wait_state" where
  "step parse deadline st (Tick now) =
     (if timer st then poll parse deadline now (st\<lparr>timer := False\<rparr>) else st)"
| "step parse deadline st Abort =
     (if aborted st then st
      else if listening st then abortHandler (st\<lparr>aborted := True\<rparr>)
      else st\<lparr>aborted := True\<rparr>)"
| "step parse deadline st (Deposit content) = st\<lparr>approvalFile := Some content\<rparr>"

text \<open>
  \<^verbatim>\<open>waitForApproval\<close> up to the end of a list of events: the handler is registered, the
  first poll runs at once (at the clock reading \<open>startTime\<close>), then the events happen.
  \<open>signalAborted\<close> is the state of the signal at the call and \<open>file\<close> the approval file
  present then. The promise is settled when \<open>outcome\<close> is not \<open>None\<close>.
\<close>

definition wait_init :: "bool \<Rightarrow> string option \<Rightarrow> wait_state" where
  "wait_init signalAborted file =
     \<lparr>resolved = False, aborted = signalAborted, listening = True, timer = False,
      pollCount = 0, outcome = None, approvalFile = file\<rparr>"

definition waitForApproval ::
  "(string \<Rightarrow> approval_response option) \<Rightarrow> bool \<Rightarrow> string option \<Rightarrow> event list \<Rightarrow> wait_state" where
  "waitForApproval parse signalAborted file events =
     foldl (step parse None) (checkApproval parse (wait_init signalAborted file)) events"

definition waitForApproval_timeout ::
  "(string \<Rightarrow> approval_response option) \<Rightarrow> int \<Rightarrow> bool \<Rightarrow> string option \<Rightarrow> event list \<Rightarrow>
   wait_state" where
  "waitForApproval_timeout parse startTime signalAborted file events =
     foldl (step parse (Some startTime))
       (checkApproval_timeout parse startTime startTime (wait_init signalAborted file)) events"

text \<open>
  The contents the approval file has had: the file present at the call and what the
  events wrote. A wait stems from them when an outcome with behaviour "allow" is the
  parsed form of one of them, as is the file that is there.
\<close>

definition deposits :: "string option \<Rightarrow> event list \<Rightarrow> string set" where
  "deposits file events =
     set_option file \<union> set (concat (map (\<lambda>e. case e of Deposit c \<Rightarrow> [c] | _ \<Rightarrow> []) events))"

definition stems_from ::
  "(string \<Rightarrow> approval_response option) \<Rightarrow> string set \<Rightarrow> wait_state \<Rightarrow> bool" where
  "stems_from parse contents st =
     ((\<forall>r. outcome st = Some r \<and> r_behavior r = ''allow'' \<longrightarrow>
           (\<exists>c \<in> contents. parse c = Some r)) \<and>
      (\<forall>c. approvalFile st = Some c \<longrightarrow> c \<in> contents))"

subsection \<open>The permission callbacks\<close>

text \<open>
  \<^verbatim>\<open>createCanUseToolCallback(slackContext)(toolName, input, options)\<close>. Parameters stand
  for what the callback gets from outside: \<open>shown\<close> for \<^verbatim>\<open>JSON.stringify(input, null, 2)\<close>,
  \<open>approvalId\<close> for the generated ticket id, \<open>posted\<close> for the outcome of
  \<^verbatim>\<open>chat.postMessage\<close>, \<open>waited\<close> for the value \<^verbatim>\<open>waitForApproval\<close> resolved with
  (\<open>None\<close> while it is pending) and \<open>updateOk\<close> for whether \<^verbatim>\<open>chat.update\<close> returns.
  The result is the resolution returned to the agent runtime (\<open>None\<close>: not returned yet)
  and the calls made to Slack.
\<close>

definition error_result :: PermissionResult where
  "error_result =
     \<lparr>behavior = Deny, updatedInput = None,
      message = Some ''Error occurred while requesting permission''\<rparr>"

definition createCanUseToolCallback ::
  "SlackContext \<Rightarrow> string \<Rightarrow> tool_input \<Rightarrow> string \<Rightarrow> string \<Rightarrow> post_outcome \<Rightarrow>
   approval_response option \<Rightarrow> bool \<Rightarrow> PermissionResult option \<times> slack_call list" where
  "createCanUseToolCallback ctx toolName input shown approvalId posted waited updateOk =
     (let request = PostMessage (approval_request ctx toolName shown approvalId) in
      case posted of
        PostFailed \<Rightarrow> (Some error_result, [request])
      | Posted ts chan \<Rightarrow>
          (case waited of
             None \<Rightarrow> (None, [request])
           | Some response \<Rightarrow>
               (let allowed = (r_behavior response = ''allow'');
                    updates = (if truthy ts
                               then [Update (approval_update chan (the ts) toolName shown allowed)]
                               else [])
                in if truthy ts \<and> \<not> updateOk then (Some error_result, request # updates)
                   else if allowed
                   then (Some \<lparr>behavior = Allow, updatedInput = Some input, message = None\<rparr>,
                         request # updates)
                   else (Some \<lparr>behavior = Deny, updatedInput = None,
                                message = Some (if truthy (r_message response)
                                                then the (r_message response)
                                                else ''Denied by user'')\<rparr>,
                         request # updates))))"




text \<open>
  A wait that nothing has touched yet: not resolved, not aborted, the next poll
  scheduled, the handler registered and no approval file.
\<close>

definition pending :: "wait_state \<Rightarrow> bool" where
  "pending st =
     (\<not> resolved st \<and> \<not> aborted st \<and> timer st \<and> listening st \<and> outcome st = None \<and>
      approvalFile st = None)"

definition timed_out :: approval_response where
  "timed_out = \<lparr>r_behavior = ''deny'', r_updatedInput = None,
                 r_message = Some ''Permission request timed out''\<rparr>"

definition was_aborted :: approval_response where
  "was_aborted = \<lparr>r_behavior = ''deny'', r_updatedInput = None,
                   r_message = Some ''Request was aborted''\<rparr>"

section \<open>Session backup (session-backup.ts)\<close>

record SerializedSession =
  ser_key :: string
  ser_userId :: string
  ser_channelId :: string
  ser_threadTs :: "string option"
  ser_sessionId :: "string option"
  ser_isActive :: bool
  ser_lastActivity :: string

text \<open>
  A plain object is the list of its own properties in the order in which JavaScript
  enumerates them (\<^verbatim>\<open>Object.entries\<close>, \<^verbatim>\<open>JSON.stringify\<close>): first the properties named
  by an array index, in ascending numeric order, then the others in the order of their
  creation. An array index is the canonical decimal name of a whole number from 0 to
  \<open>2 ^ 32 - 2\<close>.
\<close>

definition is_digit :: "char \<Rightarrow> bool" where
  "is_digit c = (CHR ''0'' \<le> c \<and> c \<le> CHR ''9'')"

definition index_value :: "string \<Rightarrow> nat" where
  "index_value s = foldl (\<lambda>n c. 10 * n + (of_char c - 48)) 0 s"

definition is_array_index :: "string \<Rightarrow> bool" where
  "is_array_index s =
     (s \<noteq> [] \<and> list_all is_digit s \<and> (hd s = CHR ''0'' \<longrightarrow> s = ''0'') \<and>
      index_value s \<le> 4294967294)"

text \<open>
  Creating or assigning the property \<open>k\<close>: a present property keeps its place, a new
  array index goes before the first property that is not a smaller array index, any
  other new name goes last.
\<close>

definition obj_set :: "string \<Rightarrow> 'v \<Rightarrow> (string \<times> 'v) list \<Rightarrow> (string \<times> 'v) list" where
  "obj_set k v obj =
     (let smaller = (\<lambda>e. is_array_index (fst e) \<and> index_value (fst e) < index_value k)
      in if k \<in> fst ` set obj then map_set k v obj
         else if is_array_index k
         then takeWhile smaller obj @ (k, v) # dropWhile smaller obj
         else obj @ [(k, v)])"

text \<open>The snapshot object; \<^verbatim>\<open>workingDirectories\<close> is a plain object.\<close>

record SessionBackup =
  bk_sessions :: "SerializedSession list"
  bk_workingDirectories :: "(string \<times> string) list"
  bk_timestamp :: string
  bk_version :: nat

text \<open>
  The backup directory: file names with their contents. The file system calls of the
  source are taken to succeed; what remains of its \<^verbatim>\<open>try\<close> blocks is the RangeError of
  \<^verbatim>\<open>toISOString\<close> on an Invalid Date and the failure of \<^verbatim>\<open>JSON.parse\<close>.
\<close>

type_synonym directory = "string js_map"

definition existsSync :: "directory \<Rightarrow> string \<Rightarrow> bool" where
  "existsSync d name = (map_get d name \<noteq> None)"

definition writeFileSync :: "string \<Rightarrow> string \<Rightarrow> directory \<Rightarrow> directory" where
  "writeFileSync name content d = map_set name content d"

definition unlinkSync :: "string \<Rightarrow> directory \<Rightarrow> directory" where
  "unlinkSync name d = map_delete name d"

definition renameSync :: "string \<Rightarrow> string \<Rightarrow> directory \<Rightarrow> directory" where
  "renameSync old new d =
     (case map_get d old of
        None \<Rightarrow> d
      | Some content \<Rightarrow> writeFileSync new content (unlinkSync old d))"

definition readdirSync :: "directory \<Rightarrow> string list" where
  "readdirSync d = map fst d"

definition endsWith :: "string \<Rightarrow> string \<Rightarrow> bool" where
  "endsWith s p = (length p \<le> length s \<and> drop (length s - length p) s = p)"

definition backupFile :: string where
  "backupFile = ''sessions.json''"

text \<open>
  One entry of the loop of \<^verbatim>\<open>saveBackup\<close>. \<open>toISOString\<close> stands for
  \<^verbatim>\<open>Date.prototype.toISOString\<close> on valid dates; on an Invalid Date it throws.
\<close>

definition serialize_session ::
  "(int \<Rightarrow> string) \<Rightarrow> string \<times> ConversationSession \<Rightarrow> SerializedSession option" where
  "serialize_session toISOString e =
     (case lastActivity (snd e) of
        InvalidDate \<Rightarrow> None
      | Date t \<Rightarrow>
          Some \<lparr>ser_key = fst e, ser_userId = userId (snd e), ser_channelId = channelId (snd e),
                ser_threadTs = threadTs (snd e), ser_sessionId = sessionId (snd e),
                ser_isActive = isActive (snd e), ser_lastActivity = toISOString t\<rparr>)"

text \<open>\<^verbatim>\<open>Object.fromEntries\<close> of a Map.\<close>

definition fromEntries :: "string js_map \<Rightarrow> (string \<times> string) list" where
  "fromEntries m = fold (\<lambda>e obj. obj_set (fst e) (snd e) obj) m []"

text \<open>The snapshot \<^verbatim>\<open>saveBackup\<close> builds at the clock reading \<open>now\<close>; \<open>None\<close> when it throws.\<close>

definition snapshot ::
  "(int \<Rightarrow> string) \<Rightarrow> ConversationSession js_map \<Rightarrow> string js_map \<Rightarrow> int \<Rightarrow> SessionBackup option" where
  "snapshot toISOString sessions_map workingDirs now =
     (case those (map (serialize_session toISOString) sessions_map) of
        None \<Rightarrow> None
      | Some serializedSessions \<Rightarrow>
          Some \<lparr>bk_sessions = serializedSessions,
                bk_workingDirectories = fromEntries workingDirs,
                bk_timestamp = toISOString now, bk_version = 1\<rparr>)"

text \<open>\<^verbatim>\<open>now.toISOString().replace(/[:.]/g, '-').slice(0, 16)\<close>\<close>

definition minute_stamp :: "string \<Rightarrow> string" where
  "minute_stamp isoString = take 16 (map (\<lambda>c. if c = CHR '':'' \<or> c = CHR ''.'' then CHR ''-'' else c) isoString)"

definition timestampedFile :: "(int \<Rightarrow> string) \<Rightarrow> int \<Rightarrow> string" where
  "timestampedFile toISOString now = ''sessions-'' @ minute_stamp (toISOString now) @ ''.json''"

definition is_dated :: "string \<Rightarrow> bool" where
  "is_dated f = (startsWith f ''sessions-'' \<and> endsWith f ''.json'')"

definition cleanupOldBackups :: "nat \<Rightarrow> directory \<Rightarrow> directory" where
  "cleanupOldBackups keepCount d =
     (let files = rev (sort (filter is_dated (readdirSync d)))
      in if length files > keepCount
         then fold unlinkSync (drop keepCount files) d
         else d)"

definition createTimestampedBackup ::
  "(int \<Rightarrow> string) \<Rightarrow> string \<Rightarrow> int \<Rightarrow> directory \<Rightarrow> directory" where
  "createTimestampedBackup toISOString content now d =
     (let timestampedFile = timestampedFile toISOString now
      in if \<not> existsSync d timestampedFile
         then cleanupOldBackups 48 (writeFileSync timestampedFile content d)
         else d)"

text \<open>
  \<^verbatim>\<open>saveBackup\<close>. \<open>stringify\<close> stands for \<^verbatim>\<open>JSON.stringify(backup, null, 2)\<close>; \<open>now\<close> and
  \<open>now'\<close> are the two readings of the clock, for the snapshot and for the dated copy.
\<close>

definition saveBackup ::
  "(int \<Rightarrow> string) \<Rightarrow> (SessionBackup \<Rightarrow> string) \<Rightarrow> ConversationSession js_map \<Rightarrow>
   string js_map \<Rightarrow> int \<Rightarrow> int \<Rightarrow> directory \<Rightarrow> directory" where
  "saveBackup toISOString stringify sessions_map workingDirs now now' d =
     (case snapshot toISOString sessions_map workingDirs now of
        None \<Rightarrow> d
      | Some backup \<Rightarrow>
          (let tempFile = backupFile @ ''.tmp'';
               d = writeFileSync tempFile (stringify backup) d;
               d = renameSync tempFile backupFile d
           in createTimestampedBackup toISOString (stringify backup) now' d))"

text \<open>\<^verbatim>\<open>loadBackup\<close>; \<open>parse\<close> stands for \<^verbatim>\<open>JSON.parse\<close>, \<open>None\<close> when it throws.\<close>

definition loadBackup :: "(string \<Rightarrow> SessionBackup option) \<Rightarrow> directory \<Rightarrow> SessionBackup option" where
  "loadBackup parse d =
     (case map_get d backupFile of
        None \<Rightarrow> None
      | Some data \<Rightarrow> parse data)"

text \<open>
  \<^verbatim>\<open>restoreSessions\<close>; \<open>newDate\<close> stands for \<^verbatim>\<open>new Date(string)\<close>. The second loop runs
  over \<^verbatim>\<open>Object.entries(backup.workingDirectories)\<close>, the properties in their order.
\<close>

definition restoreSessions ::
  "(string \<Rightarrow> js_date) \<Rightarrow> SessionBackup \<Rightarrow> ConversationSession js_map \<times> string js_map" where
  "restoreSessions newDate backup =
     (fold (\<lambda>s m. map_set (ser_key s)
                    \<lparr>userId = ser_userId s, channelId = ser_channelId s,
                     threadTs = ser_threadTs s, sessionId = ser_sessionId s,
                     isActive = ser_isActive s, lastActivity = newDate (ser_lastActivity s)\<rparr> m)
        (bk_sessions backup) [],
      fold (\<lambda>e m. map_set (fst e) (snd e) m) (bk_workingDirectories backup) [])"

text \<open>
  \<^verbatim>\<open>startPeriodicBackup\<close>: one save at once, then one at every tick of the interval
  timer. A save reads the session table, the working directories and the clock.
\<close>

record save_input =
  si_sessions :: "ConversationSession js_map"
  si_workingDirs :: "string js_map"
  si_now :: int
  si_now' :: int

definition save_at ::
  "(int \<Rightarrow> string) \<Rightarrow> (SessionBackup \<Rightarrow> string) \<Rightarrow> directory \<Rightarrow> save_input \<Rightarrow> directory" where
  "save_at toISOString stringify d i =
     saveBackup toISOString stringify (si_sessions i) (si_workingDirs i) (si_now i) (si_now' i) d"

definition startPeriodicBackup ::
  "(int \<Rightarrow> string) \<Rightarrow> (SessionBackup \<Rightarrow> string) \<Rightarrow> save_input \<Rightarrow> save_input list \<Rightarrow>
   directory \<Rightarrow> directory" where
  "startPeriodicBackup toISOString stringify first ticks d =
     foldl (save_at toISOString stringify) (save_at toISOString stringify d first) ticks"

text \<open>The dated historical copies in the directory.\<close>

definition dated_files :: "directory \<Rightarrow> string list" where
  "dated_files d = filter is_dated (readdirSync d)"

section \<open>Example values\<close>

definition scope_example :: SlackContext where
  "scope_example = \<lparr>channel = ''C042'', thread_ts = Some ''1700000000.000100'', user = ''U7''\<rparr>"


text \<open>A \<^verbatim>\<open>JSON.parse\<close> for the examples: one approval record with an edited input.\<close>

definition edited_record :: approval_response where
  "edited_record = \<lparr>r_behavior = ''allow'',
                     r_updatedInput = Some [(''command'', JStr ''ls -la'')],
                     r_message = Some ''Approved by user''\<rparr>"

definition parse_example :: "string \<Rightarrow> approval_response option" where
  "parse_example content = (if content = ''approved, edited'' then Some edited_record else None)"

text \<open>
  Stand-ins for the library functions on the values of the examples:
  \<^verbatim>\<open>toISOString\<close> and \<^verbatim>\<open>new Date\<close> on three instants, \<^verbatim>\<open>JSON.stringify\<close> and
  \<^verbatim>\<open>JSON.parse\<close> on one snapshot.
\<close>

definition iso_example :: "int \<Rightarrow> string" where
  "iso_example t =
     (if t = 1000 then ''1970-01-01T00:00:01.000Z''
      else if t = 8000000 then ''1970-01-01T02:13:20.000Z''
      else ''2023-11-14T22:13:20.000Z'')"

definition date_example :: "string \<Rightarrow> js_date" where
  "date_example s =
     (if s = ''1970-01-01T00:00:01.000Z'' then Date 1000
      else if s = ''1970-01-01T02:13:20.000Z'' then Date 8000000
      else if s = ''2023-11-14T22:13:20.000Z'' then Date 1700000000000
      else InvalidDate)"

definition sessions_example :: "ConversationSession js_map" where
  "sessions_example =
     [(''U1-C1-direct'',
        \<lparr>userId = ''U1'', channelId = ''C1'', threadTs = None, sessionId = None,
         isActive = True, lastActivity = Date 1000\<rparr>),
      (''U2-C1-17.5'',
        \<lparr>userId = ''U2'', channelId = ''C1'', threadTs = Some ''17.5'', sessionId = Some ''s9'',
         isActive = True, lastActivity = Date 8000000\<rparr>)]"

definition dirs_example :: "string js_map" where
  "dirs_example = [(''C1-17.5'', ''/home/user/project''), (''D9-U1'', ''/tmp/work'')]"

definition backup_example :: SessionBackup where
  "backup_example =
     \<lparr>bk_sessions =
        [\<lparr>ser_key = ''U1-C1-direct'', ser_userId = ''U1'', ser_channelId = ''C1'',
          ser_threadTs = None, ser_sessionId = None, ser_isActive = True,
          ser_lastActivity = ''1970-01-01T00:00:01.000Z''\<rparr>,
         \<lparr>ser_key = ''U2-C1-17.5'', ser_userId = ''U2'', ser_channelId = ''C1'',
          ser_threadTs = Some ''17.5'', ser_sessionId = Some ''s9'', ser_isActive = True,
          ser_lastActivity = ''1970-01-01T02:13:20.000Z''\<rparr>],
      bk_workingDirectories = [(''C1-17.5'', ''/home/user/project''), (''D9-U1'', ''/tmp/work'')],
      bk_timestamp = ''2023-11-14T22:13:20.000Z'', bk_version = 1\<rparr>"

definition stringify_example :: "SessionBackup \<Rightarrow> string" where
  "stringify_example b = (if b = backup_example then ''snapshot of the example'' else ''{}'')"

definition parse_backup_example :: "string \<Rightarrow> SessionBackup option" where
  "parse_backup_example s = (if s = ''snapshot of the example'' then Some backup_example else None)"

definition first_save_example :: save_input where
  "first_save_example =
     \<lparr>si_sessions = sessions_example, si_workingDirs = dirs_example,
      si_now = 1700000000000, si_now' = 1700000000000\<rparr>"

text \<open>A session table with an old session, a recent one and one whose date is invalid.\<close>

definition reap_example :: "ConversationSession js_map" where
  "reap_example =
     [(''U1-C1-direct'',
        \<lparr>userId = ''U1'', channelId = ''C1'', threadTs = None, sessionId = None,
         isActive = True, lastActivity = Date 1000\<rparr>),
      (''U2-C1-17.5'',
        \<lparr>userId = ''U2'', channelId = ''C1'', threadTs = Some ''17.5'', sessionId = Some ''s9'',
         isActive = True, lastActivity = Date 8000000\<rparr>),
      (''U3-C1-direct'',
        \<lparr>userId = ''U3'', channelId = ''C1'', threadTs = None, sessionId = None,
         isActive = True, lastActivity = InvalidDate\<rparr>)]"

text \<open>A session table of one session whose date is invalid.\<close>

definition invalid_date_example :: "ConversationSession js_map" where
  "invalid_date_example =
     [(''U3-C1-direct'',
        \<lparr>userId = ''U3'', channelId = ''C1'', threadTs = None, sessionId = None,
         isActive = True, lastActivity = InvalidDate\<rparr>)]"

section \<open>Session reaping\<close>

lemma fold_delete_expired:
  "fold (\<lambda>(key, session) m. if P session then map_delete key m else m) es m =
   filter (\<lambda>e. fst e \<notin> fst ` {x \<in> set es. P (snd x)}) m"
proof (induction es arbitrary: m)
  case Nil
  then show ?case by simp
next
  case (Cons e es)
  obtain k s where e: "e = (k, s)" by (cases e)
  have sel: "(fst x \<notin> fst ` {x \<in> set (e # es). P (snd x)}) =
             ((P s \<longrightarrow> fst x \<noteq> k) \<and> fst x \<notin> fst ` {x \<in> set es. P (snd x)})" for x
    unfolding e by force
  show ?case
    unfolding sel by (simp add: e Cons.IH map_delete_def conj_commute)
qed

lemma filter_own_entries:
  assumes "distinct (map fst m)"
  shows "filter (\<lambda>e. fst e \<notin> fst ` {x \<in> set m. P (snd x)}) m = filter (\<lambda>e. \<not> P (snd e)) m"
proof (rule filter_cong[OF refl])
  fix e assume e: "e \<in> set m"
  show "(fst e \<notin> fst ` {x \<in> set m. P (snd x)}) = (\<not> P (snd e))"
  proof
    assume "fst e \<notin> fst ` {x \<in> set m. P (snd x)}"
    with e show "\<not> P (snd e)" by auto
  next
    assume np: "\<not> P (snd e)"
    show "fst e \<notin> fst ` {x \<in> set m. P (snd x)}"
    proof
      assume "fst e \<in> fst ` {x \<in> set m. P (snd x)}"
      then obtain x where x: "x \<in> set m" "P (snd x)" "fst x = fst e" by auto
      from assms e x(1) x(3) have "x = e"
        by (metis distinct_map inj_on_def)
      with x(2) np show False by simp
    qed
  qed
qed

subsection \<open>Doubles\<close>

lemma to_double_exact:
  assumes "\<bar>m\<bar> < 2 ^ 53"
  shows "to_double m 0 = Double m 0"
proof -
  have b: "bitlen \<bar>m\<bar> \<le> 53"
    using assms by (simp add: bitlen_le_iff_power)
  then have k: "\<not> 0 < max (bitlen \<bar>m\<bar> - 53) (- 1074 - 0)"
    by simp
  from b have n: "\<not> 1024 < bitlen \<bar>m\<bar> + 0"
    by simp
  show ?thesis
    unfolding to_double_def Let_def by (simp only: k n if_False)
qed

lemma valof_shift:
  assumes "e \<le> e1"
  shows "valof m e1 = real_of_int (m * 2 ^ nat (e1 - e)) * 2 powr real_of_int e"
proof -
  have "2 powr real_of_int e1 = 2 powr (real (nat (e1 - e)) + real_of_int e)"
    using assms by simp
  also have "\<dots> = 2 ^ nat (e1 - e) * 2 powr real_of_int e"
    by (simp only: powr_add powr_realpow zero_less_numeral)
  finally show ?thesis
    by (simp add: valof_def)
qed

lemma js_lt_Double:
  "js_lt (Double m1 e1) (Double m2 e2) \<longleftrightarrow> valof m1 e1 < valof m2 e2"
proof -
  define e where "e = min e1 e2"
  have le: "e \<le> e1" "e \<le> e2" by (simp_all add: e_def)
  have pos: "0 < (2::real) powr real_of_int e" by simp
  have "valof m1 e1 < valof m2 e2 \<longleftrightarrow>
        real_of_int (m1 * 2 ^ nat (e1 - e)) < real_of_int (m2 * 2 ^ nat (e2 - e))"
    unfolding valof_shift[OF le(1)] valof_shift[OF le(2)]
    using pos by (rule mult_less_cancel_right_pos)
  also have "\<dots> \<longleftrightarrow> m1 * 2 ^ nat (e1 - e) < m2 * 2 ^ nat (e2 - e)"
    by (rule of_int_less_iff)
  finally show ?thesis
    by (simp add: Let_def e_def)
qed

lemma js_lt_NaN: "js_lt x NaN = False"
  by (cases x) simp_all

lemma js_lt_PosInfinity: "js_lt PosInfinity y = False"
  by (cases y) simp_all

lemma js_le_zero: "js_le (Double n 0) (Double 0 0) \<longleftrightarrow> n \<le> 0"
  by (auto simp: js_le_def Let_def)

lemma js_mul_whole:
  assumes "\<bar>a * b\<bar> < 2 ^ 53"
  shows "js_mul (Double a 0) (Double b 0) = Double (a * b) 0"
  using to_double_exact[OF assms] by (simp only: js_mul.simps) simp

lemma whole_hours:
  assumes "0 < n" "n * 3600000 < 2 ^ 53"
  shows "maxAge_of (Double n 0) = Double (n * 3600000) 0"
proof -
  have a: "js_mul (Double n 0) (Double 60 0) = Double (n * 60) 0"
    using assms by (intro js_mul_whole) simp
  have b: "js_mul (Double (n * 60) 0) (Double 60 0) = Double (n * 60 * 60) 0"
    using assms by (intro js_mul_whole) simp
  have c: "js_mul (Double (n * 60 * 60) 0) (Double 1000 0) = Double (n * 60 * 60 * 1000) 0"
    using assms by (intro js_mul_whole) simp
  show ?thesis
    unfolding maxAge_of_def a b c by simp
qed

subsection \<open>Expired sessions\<close>

lemma session_expired_Date:
  assumes "lastActivity session = Date t" "\<bar>now - t\<bar> < 2 ^ 53"
  shows "session_expired now (Double m e) session \<longleftrightarrow>
         real_of_int t < real_of_int now - valof m e"
proof -
  have "session_expired now (Double m e) session \<longleftrightarrow>
        js_lt (Double m e) (Double (now - t) 0)"
    using to_double_exact[OF assms(2)]
    by (simp add: session_expired_def getTime_def assms(1) js_gt_def Let_def)
  also have "\<dots> \<longleftrightarrow> valof m e < real_of_int (now - t)"
    by (simp only: js_lt_Double) (simp add: valof_def)
  finally show ?thesis by auto
qed

lemma session_expired_InvalidDate:
  "lastActivity session = InvalidDate \<Longrightarrow> \<not> session_expired now maxAge session"
  by (cases maxAge) (simp_all add: session_expired_def getTime_def js_gt_def js_lt_NaN)

lemma session_expired_never:
  "maxAge = NaN \<or> maxAge = PosInfinity \<Longrightarrow> \<not> session_expired now maxAge session"
  by (auto simp: session_expired_def js_gt_def js_lt_PosInfinity)

lemma cleanup_filter:
  assumes "distinct (map fst sessions)" "\<not> js_le maxAgeHours (Double 0 0)"
  shows "cleanupInactiveSessions maxAgeHours now sessions =
         filter (\<lambda>(key, session). \<not> session_expired now (maxAge_of maxAgeHours) session) sessions"
proof -
  have "cleanupInactiveSessions maxAgeHours now sessions =
        filter (\<lambda>e. \<not> session_expired now (maxAge_of maxAgeHours) (snd e)) sessions"
    using assms(2)
    by (simp add: cleanupInactiveSessions_def Let_def fold_delete_expired
        filter_own_entries[OF assms(1)])
  also have "\<dots> = filter (\<lambda>(key, session). \<not> session_expired now (maxAge_of maxAgeHours) session)
                     sessions"
    by (simp add: case_prod_unfold)
  finally show ?thesis .
qed

text \<open>
  Claim C9. With a limit of zero or less, \<^verbatim>\<open>cleanupInactiveSessions\<close> returns the
  session table as it is, whatever the ages. With any other limit it removes exactly the
  sessions for which the test \<^verbatim>\<open>now - lastActivity > maxAge\<close> of the code holds, and
  keeps every other entry, with its value and its place. \<open>maxAge\<close> is the number the code
  computes, \<^verbatim>\<open>maxAgeHours * 60 * 60 * 1000\<close> in doubles. When it is finite and the
  differences between the clock and the dates of the table are below \<open>2 ^ 53\<close> (as they
  are for all valid dates while the clock reads less than 367199254740992, a day in the
  year 13606), the sessions removed are exactly those whose last activity lies before
  \<open>now\<close> minus \<open>maxAge\<close>, as real numbers. When \<open>maxAge\<close> is NaN or infinite nothing is
  removed. For a whole number of hours, \<open>maxAge\<close> is that number times 3600000.
\<close>

theorem cleanupInactiveSessions_reap:
  assumes "distinct (map fst sessions)"
  shows
    "(js_le maxAgeHours (Double 0 0) \<longrightarrow>
        cleanupInactiveSessions maxAgeHours now sessions = sessions) \<and>
     (\<not> js_le maxAgeHours (Double 0 0) \<longrightarrow>
        cleanupInactiveSessions maxAgeHours now sessions =
          filter (\<lambda>(key, session). \<not> session_expired now (maxAge_of maxAgeHours) session)
            sessions \<and>
        (maxAge_of maxAgeHours = Double m e \<and>
         (\<forall>(key, session) \<in> set sessions.
            \<forall>t. lastActivity session = Date t \<longrightarrow> \<bar>now - t\<bar> < 2 ^ 53) \<longrightarrow>
           cleanupInactiveSessions maxAgeHours now sessions =
             filter (\<lambda>(key, session).
                       \<not> (\<exists>t. lastActivity session = Date t \<and>
                              real_of_int t < real_of_int now - valof m e))
               sessions) \<and>
        (maxAge_of maxAgeHours = NaN \<or> maxAge_of maxAgeHours = PosInfinity \<longrightarrow>
           cleanupInactiveSessions maxAgeHours now sessions = sessions)) \<and>
     (0 < n \<and> n * 3600000 < 2 ^ 53 \<longrightarrow>
        \<not> js_le (Double n 0) (Double 0 0) \<and>
        maxAge_of (Double n 0) = Double (n * 3600000) 0 \<and>
        valof (n * 3600000) 0 = real_of_int n * 3600000)"
proof (intro conjI impI)
  assume "js_le maxAgeHours (Double 0 0)"
  then show "cleanupInactiveSessions maxAgeHours now sessions = sessions"
    by (simp add: cleanupInactiveSessions_def)
next
  assume pos: "\<not> js_le maxAgeHours (Double 0 0)"
  show "cleanupInactiveSessions maxAgeHours now sessions =
          filter (\<lambda>(key, session). \<not> session_expired now (maxAge_of maxAgeHours) session)
            sessions"
    by (rule cleanup_filter[OF assms pos])
next
  assume pos: "\<not> js_le maxAgeHours (Double 0 0)"
  assume fin: "maxAge_of maxAgeHours = Double m e \<and>
         (\<forall>(key, session) \<in> set sessions.
            \<forall>t. lastActivity session = Date t \<longrightarrow> \<bar>now - t\<bar> < 2 ^ 53)"
  have "(\<not> session_expired now (Double m e) (snd x)) =
        (\<not> (\<exists>t. lastActivity (snd x) = Date t \<and>
                real_of_int t < real_of_int now - valof m e))"
    if x: "x \<in> set sessions" for x
  proof (cases "lastActivity (snd x)")
    case (Date t)
    with fin x have "\<bar>now - t\<bar> < 2 ^ 53" by (cases x) auto
    from session_expired_Date[OF Date this] Date show ?thesis by simp
  next
    case InvalidDate
    then show ?thesis by (simp add: session_expired_InvalidDate)
  qed
  then have "filter (\<lambda>x. \<not> session_expired now (Double m e) (snd x)) sessions =
        filter (\<lambda>x. \<not> (\<exists>t. lastActivity (snd x) = Date t \<and>
                            real_of_int t < real_of_int now - valof m e)) sessions"
    by (intro filter_cong[OF refl])
  then show "cleanupInactiveSessions maxAgeHours now sessions =
             filter (\<lambda>(key, session).
                       \<not> (\<exists>t. lastActivity session = Date t \<and>
                              real_of_int t < real_of_int now - valof m e))
               sessions"
    using fin by (simp add: cleanup_filter[OF assms pos] case_prod_unfold)
next
  assume pos: "\<not> js_le maxAgeHours (Double 0 0)"
  assume "maxAge_of maxAgeHours = NaN \<or> maxAge_of maxAgeHours = PosInfinity"
  then show "cleanupInactiveSessions maxAgeHours now sessions = sessions"
    by (simp add: cleanup_filter[OF assms pos] session_expired_never case_prod_unfold)
next
  assume "0 < n \<and> n * 3600000 < 2 ^ 53"
  then show "\<not> js_le (Double n 0) (Double 0 0)"
    by (simp add: js_le_zero)
next
  assume "0 < n \<and> n * 3600000 < 2 ^ 53"
  then show "maxAge_of (Double n 0) = Double (n * 3600000) 0"
    by (simp add: whole_hours)
next
  show "valof (n * 3600000) 0 = real_of_int n * 3600000"
    by (simp add: valof_def)
qed

theorem cleanupInactiveSessions_reap_witness:
  "distinct (map fst reap_example) \<and>
   js_le (Double 0 0) (Double 0 0) \<and>
   cleanupInactiveSessions (Double 0 0) 10000000 reap_example = reap_example \<and>
   \<not> js_le (Double 1 0) (Double 0 0) \<and>
   maxAge_of (Double 1 0) = Double 3600000 0 \<and>
   map (lastActivity \<circ> snd) reap_example = [Date 1000, Date 8000000, InvalidDate] \<and>
   cleanupInactiveSessions (Double 1 0) 10000000 reap_example = tl reap_example \<and>
   \<not> js_le NaN (Double 0 0) \<and> maxAge_of NaN = NaN \<and>
   cleanupInactiveSessions NaN 10000000 reap_example = reap_example"
proof -
  have d: "distinct (map fst reap_example)" by (simp add: reap_example_def)
  have z: "js_le (Double 0 0) (Double 0 0)"
    by (simp add: js_le_zero)
  from cleanupInactiveSessions_reap[OF d, of "Double 0 0" 10000000 0 0 1] z
  have none: "cleanupInactiveSessions (Double 0 0) 10000000 reap_example = reap_example"
    by blast
  from cleanupInactiveSessions_reap[OF d, of "Double 0 0" 10000000 0 0 1]
  have m: "\<not> js_le (Double 1 0) (Double 0 0)" "maxAge_of (Double 1 0) = Double 3600000 0"
    by simp_all
  have r: "\<forall>(key, session) \<in> set reap_example.
      \<forall>t. lastActivity session = Date t \<longrightarrow> \<bar>10000000 - t\<bar> < 2 ^ 53"
    by (simp add: reap_example_def)
  from cleanupInactiveSessions_reap[OF d, of "Double 1 0" 10000000 3600000 0 1] m r
  have "cleanupInactiveSessions (Double 1 0) 10000000 reap_example =
          filter (\<lambda>(key, session).
                    \<not> (\<exists>t. lastActivity session = Date t \<and>
                           real_of_int t < real_of_int 10000000 - valof 3600000 0))
            reap_example"
    by blast
  then have hour: "cleanupInactiveSessions (Double 1 0) 10000000 reap_example = tl reap_example"
    by (simp add: reap_example_def valof_def)
  have n: "\<not> js_le NaN (Double 0 0)" "maxAge_of NaN = NaN"
    by (simp_all add: js_le_def maxAge_of_def)
  from cleanupInactiveSessions_reap[OF d, of NaN 10000000 0 0 1] n
  have nan: "cleanupInactiveSessions NaN 10000000 reap_example = reap_example"
    by blast
  have l: "map (lastActivity \<circ> snd) reap_example = [Date 1000, Date 8000000, InvalidDate]"
    by (simp add: reap_example_def)
  from d z none m l hour n nan show ?thesis
    by blast
qed

text \<open>
  A limit that is not a whole number of hours: the double nearest to 0.29 is a little
  less than 0.29, yet its product with 60, 60 and 1000 rounds to 1044000, so a session
  that is 1044000 ms old is kept.
\<close>

lemma fractional_hours_example:
  "maxAge_of (Double 5224175567749775 (- 54)) = Double 8967891714048000 (- 33) \<and>
   cleanupInactiveSessions (Double 5224175567749775 (- 54)) 1044000
     [(''U1-C1-direct'',
        \<lparr>userId = ''U1'', channelId = ''C1'', threadTs = None, sessionId = None,
         isActive = True, lastActivity = Date 0\<rparr>)] =
     [(''U1-C1-direct'',
        \<lparr>userId = ''U1'', channelId = ''C1'', threadTs = None, sessionId = None,
         isActive = True, lastActivity = Date 0\<rparr>)]"
  by code_simp

section \<open>Queries without a Slack context\<close>

text \<open>
  Claim C10. When \<^verbatim>\<open>streamQuery\<close> is called without a Slack context, the query runs with
  permission mode \<^verbatim>\<open>bypassPermissions\<close> and no \<^verbatim>\<open>canUseTool\<close> callback, whatever modes the
  store holds for any scope.
\<close>

theorem streamQuery_no_context_bypasses:
  "permissionMode (streamQuery_options modes servers tools session wd None) = bypassPermissions \<and>
   canUseTool (streamQuery_options modes servers tools session wd None) = None"
  by (simp add: streamQuery_options_def Let_def split: option.splits)

section \<open>Characters and case\<close>

lemma code_toLowerCase_char:
  "(of_char (toLowerCase_char c) :: nat) =
     (if is_upper_code (of_char c) then of_char c + 32 else of_char c)"
  by (simp add: toLowerCase_char_def is_upper_code_def)

lemma code_canonicalize:
  "(of_char (canonicalize c) :: nat) =
     (if is_lower_code (of_char c) then of_char c - 32 else of_char c)"
proof -
  have "(of_char c :: nat) - 32 < 256"
    using nat_of_char_less_256[of c] by arith
  then show ?thesis
    by (simp add: canonicalize_def)
qed

lemma not_upper_toLowerCase_char: "\<not> is_upper_code (of_char (toLowerCase_char c))"
  unfolding code_toLowerCase_char by (simp add: is_upper_code_def)

lemma white_code: "c \<in> set white \<longleftrightarrow> (of_char c :: nat) \<in> {9, 10, 11, 12, 13, 32, 160}"
proof -
  have "c \<in> set white \<longleftrightarrow> (of_char c :: nat) \<in> of_char ` set white"
    by (simp add: inj_image_mem_iff[OF inj_of_char])
  also have "(of_char ` set white :: nat set) = {9, 10, 11, 12, 13, 32, 160}"
    by (simp add: white_def)
  finally show ?thesis .
qed

lemma white_no_case:
  assumes "c \<in> set white"
  shows "\<not> is_upper_code (of_char c)" and "\<not> is_lower_code (of_char c)"
  using assms unfolding white_code is_upper_code_def is_lower_code_def by auto

lemma white_toLowerCase_char: "toLowerCase_char c \<in> set white \<longleftrightarrow> c \<in> set white"
proof (cases "is_upper_code (of_char c)")
  case True
  then have "c \<notin> set white" using white_no_case(1) by blast
  moreover have "toLowerCase_char c \<notin> set white"
  proof
    assume "toLowerCase_char c \<in> set white"
    then have "(of_char c :: nat) + 32 \<in> {9, 10, 11, 12, 13, 32, 160}"
      using True unfolding white_code code_toLowerCase_char by simp
    with True show False unfolding is_upper_code_def by auto
  qed
  ultimately show ?thesis by simp
next
  case False
  then show ?thesis by (simp add: toLowerCase_char_def)
qed


lemma chr_eq_white: "list_ex (\<lambda>c. chr_eq True c x) white \<longleftrightarrow> x \<in> set white"
proof -
  have "chr_eq True c x \<longleftrightarrow> c = x" if w: "c \<in> set white" for c
  proof
    assume "chr_eq True c x"
    then have eq: "(of_char c :: nat) = of_char (canonicalize x)"
      using white_no_case(2)[OF w] by (simp add: chr_eq_def canonicalize_def)
    have "\<not> is_lower_code (of_char x)"
    proof
      assume lo: "is_lower_code (of_char x)"
      then have "(of_char c :: nat) = of_char x - 32"
        using eq by (simp add: code_canonicalize)
      with lo w show False
        unfolding white_code is_lower_code_def by auto
    qed
    with eq show "c = x" by (simp add: canonicalize_def)
  qed (simp add: chr_eq_def)
  then show ?thesis by (auto simp: list_ex_iff)
qed

lemma plain_code_eq:
  fixes a b :: nat
  assumes pl: "(97 \<le> a \<and> a \<le> 122) \<or> (48 \<le> a \<and> a \<le> 57)"
    and nu: "\<not> is_upper_code b"
    and eq: "(if is_lower_code a then a - 32 else a) = (if is_lower_code b then b - 32 else b)"
  shows "a = b"
proof -
  from pl consider (letter) "97 \<le> a" "a \<le> 122" | (digit) "48 \<le> a" "a \<le> 57"
    by blast
  then show ?thesis
  proof cases
    case letter
    then have la: "is_lower_code a" by (simp add: is_lower_code_def)
    show ?thesis
    proof (cases "is_lower_code b")
      case True
      then have "97 \<le> b" unfolding is_lower_code_def by linarith
      moreover from eq la True have "a - 32 = b - 32" by simp
      ultimately show ?thesis using letter by linarith
    next
      case False
      with eq la have "b = a - 32" by simp
      with letter have "65 \<le> b \<and> b \<le> 90" by linarith
      with nu show ?thesis by (simp add: is_upper_code_def)
    qed
  next
    case digit
    then have la: "\<not> is_lower_code a" unfolding is_lower_code_def by linarith
    show ?thesis
    proof (cases "is_lower_code b")
      case True
      then have "97 \<le> b" unfolding is_lower_code_def by linarith
      moreover from eq la True have "a = b - 32" by simp
      ultimately show ?thesis using digit by linarith
    next
      case False
      with eq la show ?thesis by simp
    qed
  qed
qed

lemma chr_eq_plain_lower:
  assumes "plain p"
  shows "chr_eq True p (toLowerCase_char y) \<longleftrightarrow> p = toLowerCase_char y"
proof
  let ?x = "toLowerCase_char y"
  assume "chr_eq True p ?x"
  then have "(of_char (canonicalize p) :: nat) = of_char (canonicalize ?x)"
    by (simp add: chr_eq_def)
  then have "(of_char p :: nat) = of_char ?x"
    unfolding code_canonicalize
    by (rule plain_code_eq[OF assms[unfolded plain_def] not_upper_toLowerCase_char])
  then show "p = ?x" by simp
qed (simp add: chr_eq_def)

section \<open>What the matcher accepts\<close>

lemma rxm_Seq_iff:
  "t \<in> set (rxm ci n (Seq r1 r2) s) \<longleftrightarrow> (\<exists>u \<in> set (rxm ci n r1 s). t \<in> set (rxm ci n r2 u))"
  by auto

lemma rxm_Str_iff:
  "t \<in> set (rxm ci n (Str p) s) \<longleftrightarrow> (\<exists>u. s = u @ t \<and> list_all2 (chr_eq ci) p u)"
proof (induction p arbitrary: s)
  case Nil
  then show ?case by (auto simp: Str_def)
next
  case (Cons c p)
  have step: "t \<in> set (rxm ci n (Str (c # p)) s) \<longleftrightarrow>
              (\<exists>x s'. s = x # s' \<and> chr_eq ci c x \<and> t \<in> set (rxm ci n (Str p) s'))"
    by (auto simp: Str_def split: list.splits)
  show ?case
    unfolding step Cons.IH
    by (auto simp: list_all2_Cons1)
qed

lemma rxm_Star_Nil: "rxm ci n (Star r) [] = [[]]"
  by (subst rxm.simps(7)) simp

lemma rxm_Star_Cls_Cons:
  "rxm ci n (Star (Cls cs)) (x # s) =
     (x # s) # (if list_ex (\<lambda>c. chr_eq ci c x) cs then rxm ci n (Star (Cls cs)) s else [])"
  by (subst rxm.simps(7)) simp

lemma rxm_Star_Cls_iff:
  "t \<in> set (rxm ci n (Star (Cls cs)) s) \<longleftrightarrow>
     (\<exists>w. s = w @ t \<and> (\<forall>x \<in> set w. list_ex (\<lambda>c. chr_eq ci c x) cs))"
proof (induction s)
  case Nil
  then show ?case by (auto simp: rxm_Star_Nil)
next
  case (Cons x s)
  note step = rxm_Star_Cls_Cons[of ci n cs x s]
  show ?case
  proof
    assume "t \<in> set (rxm ci n (Star (Cls cs)) (x # s))"
    then consider "t = x # s"
      | "list_ex (\<lambda>c. chr_eq ci c x) cs" "t \<in> set (rxm ci n (Star (Cls cs)) s)"
      unfolding step by (auto split: if_splits)
    then show "\<exists>w. x # s = w @ t \<and> (\<forall>x \<in> set w. list_ex (\<lambda>c. chr_eq ci c x) cs)"
    proof cases
      case 1
      then show ?thesis by (intro exI[of _ "[]"]) simp
    next
      case 2
      then obtain w where "s = w @ t" "\<forall>x \<in> set w. list_ex (\<lambda>c. chr_eq ci c x) cs"
        using Cons.IH by blast
      with 2(1) show ?thesis by (intro exI[of _ "x # w"]) simp
    qed
  next
    assume "\<exists>w. x # s = w @ t \<and> (\<forall>x \<in> set w. list_ex (\<lambda>c. chr_eq ci c x) cs)"
    then obtain w where w: "x # s = w @ t" "\<forall>x \<in> set w. list_ex (\<lambda>c. chr_eq ci c x) cs"
      by blast
    show "t \<in> set (rxm ci n (Star (Cls cs)) (x # s))"
    proof (cases w)
      case Nil
      with w show ?thesis unfolding step by simp
    next
      case (Cons y w')
      with w have "y = x" "s = w' @ t" "list_ex (\<lambda>c. chr_eq ci c x) cs"
        "\<forall>x \<in> set w'. list_ex (\<lambda>c. chr_eq ci c x) cs"
        by auto
      then show ?thesis unfolding step using Cons.IH by auto
    qed
  qed
qed

lemma rxm_Plus_Cls_iff:
  "t \<in> set (rxm ci n (Plus (Cls cs)) s) \<longleftrightarrow>
     (\<exists>w. w \<noteq> [] \<and> s = w @ t \<and> (\<forall>x \<in> set w. list_ex (\<lambda>c. chr_eq ci c x) cs))"
proof -
  have "t \<in> set (rxm ci n (Plus (Cls cs)) s) \<longleftrightarrow>
        (\<exists>x s'. s = x # s' \<and> list_ex (\<lambda>c. chr_eq ci c x) cs \<and> t \<in> set (rxm ci n (Star (Cls cs)) s'))"
    unfolding Plus_def rxm_Seq_iff by (auto split: list.splits if_splits)
  also have "\<dots> \<longleftrightarrow> (\<exists>w. w \<noteq> [] \<and> s = w @ t \<and> (\<forall>x \<in> set w. list_ex (\<lambda>c. chr_eq ci c x) cs))"
    unfolding rxm_Star_Cls_iff
  proof
    assume "\<exists>x s'. s = x # s' \<and> list_ex (\<lambda>c. chr_eq ci c x) cs \<and>
                 (\<exists>w. s' = w @ t \<and> (\<forall>x \<in> set w. list_ex (\<lambda>c. chr_eq ci c x) cs))"
    then obtain x w where "s = x # w @ t" "list_ex (\<lambda>c. chr_eq ci c x) cs"
      "\<forall>x \<in> set w. list_ex (\<lambda>c. chr_eq ci c x) cs" by blast
    then show "\<exists>w. w \<noteq> [] \<and> s = w @ t \<and> (\<forall>x \<in> set w. list_ex (\<lambda>c. chr_eq ci c x) cs)"
      by (intro exI[of _ "x # w"]) simp
  next
    assume "\<exists>w. w \<noteq> [] \<and> s = w @ t \<and> (\<forall>x \<in> set w. list_ex (\<lambda>c. chr_eq ci c x) cs)"
    then obtain w where w: "w \<noteq> []" "s = w @ t" "\<forall>x \<in> set w. list_ex (\<lambda>c. chr_eq ci c x) cs"
      by blast
    then obtain x w' where "w = x # w'" by (cases w) auto
    with w show "\<exists>x s'. s = x # s' \<and> list_ex (\<lambda>c. chr_eq ci c x) cs \<and>
                 (\<exists>w. s' = w @ t \<and> (\<forall>x \<in> set w. list_ex (\<lambda>c. chr_eq ci c x) cs))"
      by auto
  qed
  finally show ?thesis .
qed

lemma rxm_alts_iff:
  "rs \<noteq> [] \<Longrightarrow> t \<in> set (rxm ci n (alts rs) s) \<longleftrightarrow> (\<exists>r \<in> set rs. t \<in> set (rxm ci n r s))"
proof (induction rs)
  case Nil
  then show ?case by simp
next
  case (Cons r rs)
  show ?case
  proof (cases "rs = []")
    case True
    then show ?thesis by (simp add: alts_def)
  next
    case False
    then have "alts (r # rs) = Alt r (alts rs)" by (simp add: alts_def)
    with Cons.IH[OF False] show ?thesis by auto
  qed
qed

lemma tails_length: "t \<in> set (tails s) \<Longrightarrow> length t \<le> length s"
  by (induction s) auto

lemma tails_full: "t \<in> set (tails s) \<Longrightarrow> length t = length s \<Longrightarrow> t = s"
  by (induction s) (auto dest: tails_length)

lemma tails_self: "s \<in> set (tails s)"
  by (cases s) auto

lemma rx_test_Bol:
  "rx_test ci (Seq Bol r) s \<longleftrightarrow> rxm ci (length s) r s \<noteq> []"
proof -
  have "rxm ci (length s) (Seq Bol r) t = (if t = s then rxm ci (length s) r s else [])"
    if "t \<in> set (tails s)" for t
    using tails_full[OF that] by auto
  then have "rx_test ci (Seq Bol r) s \<longleftrightarrow>
             (\<exists>t \<in> set (tails s). (if t = s then rxm ci (length s) r s else []) \<noteq> [])"
    unfolding rx_test_def list_ex_iff by (intro bex_cong refl) simp
  also have "\<dots> \<longleftrightarrow> rxm ci (length s) r s \<noteq> []"
    using tails_self[of s] by auto
  finally show ?thesis .
qed

lemma plain_not_white: "plain c \<Longrightarrow> c \<notin> set white"
  unfolding plain_def white_code by auto

lemma chr_eq_plain_string:
  assumes "\<forall>c \<in> set p. plain c" and "\<forall>x \<in> set u. x \<in> range toLowerCase_char"
  shows "list_all2 (chr_eq True) p u \<longleftrightarrow> p = u"
proof -
  have "list_all2 (chr_eq True) p u = list_all2 (=) p u"
  proof (rule list.rel_cong[OF refl refl])
    fix c x assume "c \<in> set p" "x \<in> set u"
    with assms obtain y where "plain c" "x = toLowerCase_char y" by auto
    then show "chr_eq True c x = (c = x)" by (simp add: chr_eq_plain_lower)
  qed
  then show ?thesis by (simp add: list.rel_eq)
qed

lemma nonempty_iff_member: "(\<exists>t. t \<in> set xs) \<longleftrightarrow> xs \<noteq> []"
  by (cases xs) auto

lemma rxm_Seq_ex:
  "t \<in> set (rxm ci n (Seq r1 r2) s) \<longleftrightarrow> (\<exists>u. u \<in> set (rxm ci n r1 s) \<and> t \<in> set (rxm ci n r2 u))"
  by auto

lemma rxm_alts_Str_iff:
  assumes "args \<noteq> []"
  shows "t \<in> set (rxm ci n (alts (map Str args)) s) \<longleftrightarrow>
         (\<exists>a v. a \<in> set args \<and> s = v @ t \<and> list_all2 (chr_eq ci) a v)"
proof -
  have "map Str args \<noteq> []" using assms by simp
  from rxm_alts_iff[OF this] show ?thesis
    by (auto simp: rxm_Str_iff)
qed

lemma rxm_Eol_Eps: "t \<in> set (rxm ci n (Seq Eol Eps) s) \<longleftrightarrow> s = [] \<and> t = []"
  by auto

lemma rxm_Plus_white_iff:
  "t \<in> set (rxm True n (Plus rx_s) s) \<longleftrightarrow> (\<exists>w. w \<noteq> [] \<and> s = w @ t \<and> set w \<subseteq> set white)"
  unfolding rx_s_def rxm_Plus_Cls_iff chr_eq_white by auto

lemma command_rx_match:
  assumes args: "args \<noteq> []"
  shows "rx_test True (command_rx word args) s \<longleftrightarrow>
         (\<exists>u w v a. s = u @ w @ v \<and> list_all2 (chr_eq True) word u \<and> w \<noteq> [] \<and>
                    set w \<subseteq> set white \<and> a \<in> set args \<and> list_all2 (chr_eq True) a v)"
proof -
  let ?n = "length s"
  let ?R3 = "Seq (alts (map Str args)) (Seq Eol Eps)"
  let ?R2 = "Seq (Plus rx_s) ?R3"
  let ?R1 = "Seq (Str word) ?R2"
  have e3: "t \<in> set (rxm True ?n ?R3 x) \<longleftrightarrow>
            t = [] \<and> (\<exists>a. a \<in> set args \<and> list_all2 (chr_eq True) a x)" for t x
    unfolding rxm_Seq_ex[of t] rxm_alts_Str_iff[OF args] rxm_Eol_Eps by auto
  have e2: "t \<in> set (rxm True ?n ?R2 x) \<longleftrightarrow>
            t = [] \<and> (\<exists>w v a. x = w @ v \<and> w \<noteq> [] \<and> set w \<subseteq> set white \<and>
                        a \<in> set args \<and> list_all2 (chr_eq True) a v)" for t x
    unfolding rxm_Seq_ex[of t _ _ "Plus rx_s"] e3 rxm_Plus_white_iff by blast
  have e1: "t \<in> set (rxm True ?n ?R1 s) \<longleftrightarrow>
            t = [] \<and> (\<exists>u w v a. s = u @ w @ v \<and> list_all2 (chr_eq True) word u \<and> w \<noteq> [] \<and>
                    set w \<subseteq> set white \<and> a \<in> set args \<and> list_all2 (chr_eq True) a v)" for t
    unfolding rxm_Seq_ex[of t _ _ "Str word"] e2 rxm_Str_iff by blast
  have "rx_test True (command_rx word args) s \<longleftrightarrow> (\<exists>t. t \<in> set (rxm True ?n ?R1 s))"
    unfolding command_rx_def seqs_def
    by (simp add: rx_test_Bol nonempty_iff_member del: rxm.simps)
  then show ?thesis unfolding e1 by blast
qed

section \<open>Mode commands recognised\<close>

lemma takeWhile_gap:
  assumes "set w \<subseteq> set white" "a \<noteq> []" "hd a \<notin> set white"
  shows "takeWhile (\<lambda>c. c \<in> set white) (w @ a) = w"
    and "dropWhile (\<lambda>c. c \<in> set white) (w @ a) = a"
proof -
  from assms(2) obtain x a' where a: "a = x # a'" by (cases a) auto
  with assms(3) have x: "x \<notin> set white" by simp
  from assms(1) have w: "\<And>c. c \<in> set w \<Longrightarrow> c \<in> set white" by auto
  show "takeWhile (\<lambda>c. c \<in> set white) (w @ a) = w"
    unfolding a using w x by simp
  show "dropWhile (\<lambda>c. c \<in> set white) (w @ a) = a"
    unfolding a using w x by simp
qed

lemma command_rx_shape:
  assumes word: "\<forall>c \<in> set word. plain c"
    and args: "args \<noteq> []" "\<forall>a \<in> set args. a \<noteq> [] \<and> (\<forall>c \<in> set a. plain c)"
  shows "rx_test True (command_rx word args) (toLowerCase t) \<longleftrightarrow>
         command_shape (toLowerCase t) word args"
proof
  let ?s = "toLowerCase t"
  have low: "x \<in> range toLowerCase_char" if "x \<in> set ?s" for x
    using that by (auto simp: toLowerCase_def)
  assume "rx_test True (command_rx word args) ?s"
  then obtain u w v a where m: "?s = u @ w @ v" "list_all2 (chr_eq True) word u" "w \<noteq> []"
    "set w \<subseteq> set white" "a \<in> set args" "list_all2 (chr_eq True) a v"
    unfolding command_rx_match[OF args(1)] by blast
  have "\<forall>x \<in> set u. x \<in> range toLowerCase_char" "\<forall>x \<in> set v. x \<in> range toLowerCase_char"
    using low m(1) by auto
  with m(2,6) word args(2) m(5) have uv: "u = word" "v = a"
    by (auto simp: chr_eq_plain_string)
  from args(2) m(5) have "a \<noteq> []" "\<forall>c \<in> set a. plain c" by auto
  then have a: "a \<noteq> []" "hd a \<notin> set white"
    using hd_in_set[of a] by (auto dest: plain_not_white)
  show "command_shape ?s word args"
    unfolding command_shape_def Let_def m(1) uv
    using m(3,5) takeWhile_gap[OF m(4) a] by simp
next
  let ?s = "toLowerCase t"
  let ?rest = "drop (length word) ?s"
  let ?w = "takeWhile (\<lambda>c. c \<in> set white) ?rest"
  let ?a = "dropWhile (\<lambda>c. c \<in> set white) ?rest"
  assume "command_shape ?s word args"
  then have sh: "take (length word) ?s = word" "?w \<noteq> []" "?a \<in> set args"
    unfolding command_shape_def Let_def by auto
  have "?s = take (length word) ?s @ ?rest" by simp
  also have "?rest = ?w @ ?a" by simp
  finally have dec: "?s = word @ ?w @ ?a" using sh(1) by simp
  have refl2: "list_all2 (chr_eq True) p p" for p
    by (simp add: list_all2_same chr_eq_def)
  have "set ?w \<subseteq> set white"
    using set_takeWhileD by fastforce
  with dec sh(2,3) refl2 show "rx_test True (command_rx word args) ?s"
    unfolding command_rx_match[OF args(1)] by blast
qed

lemma plain_words:
  "\<forall>c \<in> set ''auto''. plain c" "\<forall>c \<in> set ''bypass''. plain c" "\<forall>c \<in> set ''approval''. plain c"
  "\<forall>a \<in> set on_words. a \<noteq> [] \<and> (\<forall>c \<in> set a. plain c)"
  "\<forall>a \<in> set off_words. a \<noteq> [] \<and> (\<forall>c \<in> set a. plain c)"
  by (simp_all add: plain_def on_words_def off_words_def)

lemma parseModeCommand_shape:
  "parseModeCommand text =
     (let s = toLowerCase (trim text) in
      if command_shape s ''auto'' on_words then Some Auto
      else if command_shape s ''auto'' off_words then Some Approval
      else if command_shape s ''bypass'' on_words then Some Bypass
      else if command_shape s ''bypass'' off_words then Some Approval
      else if command_shape s ''approval'' on_words then Some Approval
      else if command_shape s ''approval'' off_words then Some Bypass
      else None)"
proof -
  have ne: "on_words \<noteq> []" "off_words \<noteq> []" by (simp_all add: on_words_def off_words_def)
  show ?thesis
    unfolding parseModeCommand_def Let_def
    by (simp only:
      command_rx_shape[OF plain_words(1) ne(1) plain_words(4)]
      command_rx_shape[OF plain_words(1) ne(2) plain_words(5)]
      command_rx_shape[OF plain_words(2) ne(1) plain_words(4)]
      command_rx_shape[OF plain_words(2) ne(2) plain_words(5)]
      command_rx_shape[OF plain_words(3) ne(1) plain_words(4)]
      command_rx_shape[OF plain_words(3) ne(2) plain_words(5)])
qed

lemma toLowerCase_trim: "toLowerCase (trim t) = trim (toLowerCase t)"
proof -
  have c: "(\<lambda>c. c \<in> set white) \<circ> toLowerCase_char = (\<lambda>c. c \<in> set white)"
    by (simp add: fun_eq_iff white_toLowerCase_char)
  show ?thesis
    unfolding trim_def toLowerCase_def
    by (simp add: dropWhile_map rev_map c)
qed

lemma parse_examples:
  "parseModeCommand ''approval off'' = Some Bypass"
  "parseModeCommand ''bypass on'' = Some Bypass"
  "parseModeCommand ''bypass off'' = Some Approval"
  "parseModeCommand ''auto off'' = Some Approval"
  "parseModeCommand ''  Approval   OFF '' = Some Bypass"
  "parseModeCommand ''please turn it off'' = None"
  unfolding parseModeCommand_shape
  by (simp_all add: command_shape_def trim_def toLowerCase_def toLowerCase_char_def is_upper_code_def
      white_def on_words_def off_words_def Let_def char_of_eq_iff)

lemma lower_example: "toLowerCase ''ByPass On'' = ''bypass on''"
  by (simp add: toLowerCase_def toLowerCase_char_def is_upper_code_def char_of_eq_iff)

lemma parseModeCommand_lower:
  assumes "toLowerCase a = toLowerCase b"
  shows "parseModeCommand a = parseModeCommand b"
  unfolding parseModeCommand_def toLowerCase_trim assms ..

text \<open>
  Claim C6. \<^verbatim>\<open>parseModeCommand\<close> maps "approval off" to Bypass, as it maps "bypass on";
  it maps "bypass off" and "auto off" to Approval; two texts that differ only in the case
  of their letters get the same answer; and the answer for any text is decided by the
  shape of its trimmed lower-case form: a keyword, white space, one argument. A text of
  none of the six shapes is no command.
\<close>

theorem parseModeCommand_commands:
  "parseModeCommand ''approval off'' = Some Bypass \<and>
   parseModeCommand ''bypass on'' = Some Bypass \<and>
   parseModeCommand ''bypass off'' = Some Approval \<and>
   parseModeCommand ''auto off'' = Some Approval \<and>
   (toLowerCase a = toLowerCase b \<longrightarrow> parseModeCommand a = parseModeCommand b) \<and>
   parseModeCommand text =
     (let s = toLowerCase (trim text) in
      if command_shape s ''auto'' on_words then Some Auto
      else if command_shape s ''auto'' off_words then Some Approval
      else if command_shape s ''bypass'' on_words then Some Bypass
      else if command_shape s ''bypass'' off_words then Some Approval
      else if command_shape s ''approval'' on_words then Some Approval
      else if command_shape s ''approval'' off_words then Some Bypass
      else None)"
  using parse_examples(1-4) parseModeCommand_lower[of a b] parseModeCommand_shape[of "text"]
  by blast

theorem parseModeCommand_commands_witness:
  "toLowerCase ''ByPass  On'' = toLowerCase ''bypass  on'' \<and>
   parseModeCommand ''ByPass  On'' = parseModeCommand ''bypass  on'' \<and>
   parseModeCommand ''auto on please'' = None"
  using parseModeCommand_commands[of "''ByPass  On''" "''bypass  on''" "''auto on please''"]
  by (simp add: command_shape_def trim_def toLowerCase_def toLowerCase_char_def is_upper_code_def
      white_def on_words_def off_words_def Let_def char_of_eq_iff)

section \<open>Danger classifier on the examples\<close>

lemma danger_rm_rf_root:
  "isDangerousBashCommand ''rm -rf /'' =
     \<lparr>dangerous = True,
      danger_reason = Some (''Command matches dangerous pattern: '' @
        bsl [''/rm'', ''s+(-[rRf]+'', ''s+)*[^'', ''s]*('', ''*|'', ''/'', ''s*$|~|'', ''.'', ''.)/''])\<rparr>"
  by code_simp

lemma danger_ls_la:
  "isDangerousBashCommand ''ls -la'' = \<lparr>dangerous = False, danger_reason = None\<rparr>"
  by code_simp

lemma first_match_dangerous:
  "dangerous (first_match ps command) \<longleftrightarrow> (\<exists>e \<in> set ps. rx_test False (snd e) command)"
  by (induction ps) auto


lemma within_examples:
  "\<not> isWithinWorkingDirectory curdir ''../../etc/passwd'' ''/home/user/project''"
  "isWithinWorkingDirectory curdir ''src/index.ts'' ''/home/user/project''"
  by (simp_all add: isWithinWorkingDirectory_def path_resolve_def startsWith_def Let_def)

text \<open>
  The inputs the classifier flags: a Bash command that one of the patterns matches, or a
  file path of Write, Edit or MultiEdit that resolves outside a configured working
  directory.
\<close>

lemma checkAutoModeSafety_safe_iff:
  "checkAutoModeSafety curdir toolName input workingDirectory = Inr \<lparr>safe = True, reason = None\<rparr> \<longleftrightarrow>
     \<not> (toolName = ''Bash'' \<and>
        (\<exists>command. map_of input ''command'' = Some (JStr command) \<and>
           (\<exists>e \<in> set DANGEROUS_BASH_PATTERNS. rx_test False (snd e) command))) \<and>
     \<not> (truthy workingDirectory \<and>
        (toolName = ''Write'' \<or> toolName = ''Edit'' \<or> toolName = ''MultiEdit'') \<and>
        (\<exists>v. map_of input ''file_path'' = Some v \<and> js_truthy v \<and>
           (\<forall>filePath. v = JStr filePath \<longrightarrow>
              \<not> isWithinWorkingDirectory curdir filePath (the workingDirectory))))"
proof -
  have d: "dangerous (isDangerousBashCommand c) \<longleftrightarrow>
           (\<exists>e \<in> set DANGEROUS_BASH_PATTERNS. rx_test False (snd e) c)" for c
    by (simp add: isDangerousBashCommand_def first_match_dangerous)
  show ?thesis
    unfolding checkAutoModeSafety_def Let_def
    by (auto simp: d js_truthy_def split: option.splits jval.splits bool.splits)
qed

text \<open>
  Claim C5. The classifier reports unsafe for Bash with the command "rm -rf /" and safe
  for Bash with "ls -la"; with the working directory "/home/user/project" it reports
  unsafe for Write to "../../etc/passwd" and safe for Write to a path under the
  directory; and it reports safe for every input that neither check flags.
\<close>

theorem checkAutoModeSafety_examples:
  "checkAutoModeSafety curdir ''Bash'' [(''command'', JStr ''rm -rf /'')] wd =
     Inr \<lparr>safe = False,
          reason = Some (''Command matches dangerous pattern: '' @
            bsl [''/rm'', ''s+(-[rRf]+'', ''s+)*[^'', ''s]*('', ''*|'', ''/'', ''s*$|~|'',
                 ''.'', ''.)/''])\<rparr> \<and>
   checkAutoModeSafety curdir ''Bash'' [(''command'', JStr ''ls -la'')] wd =
     Inr \<lparr>safe = True, reason = None\<rparr> \<and>
   checkAutoModeSafety curdir ''Write'' [(''file_path'', JStr ''../../etc/passwd'')]
       (Some ''/home/user/project'') =
     Inr \<lparr>safe = False,
          reason = Some (''File path '' @ [dquote] @ ''../../etc/passwd'' @ [dquote] @
                         '' is outside working directory '' @ [dquote] @
                         ''/home/user/project'' @ [dquote])\<rparr> \<and>
   checkAutoModeSafety curdir ''Write'' [(''file_path'', JStr ''src/index.ts'')]
       (Some ''/home/user/project'') =
     Inr \<lparr>safe = True, reason = None\<rparr> \<and>
   (checkAutoModeSafety curdir toolName input workingDirectory =
      Inr \<lparr>safe = True, reason = None\<rparr> \<longleftrightarrow>
     \<not> (toolName = ''Bash'' \<and>
        (\<exists>command. map_of input ''command'' = Some (JStr command) \<and>
           (\<exists>e \<in> set DANGEROUS_BASH_PATTERNS. rx_test False (snd e) command))) \<and>
     \<not> (truthy workingDirectory \<and>
        (toolName = ''Write'' \<or> toolName = ''Edit'' \<or> toolName = ''MultiEdit'') \<and>
        (\<exists>v. map_of input ''file_path'' = Some v \<and> js_truthy v \<and>
           (\<forall>filePath. v = JStr filePath \<longrightarrow>
              \<not> isWithinWorkingDirectory curdir filePath (the workingDirectory)))))"
proof (intro conjI)
  show "checkAutoModeSafety curdir ''Bash'' [(''command'', JStr ''rm -rf /'')] wd =
     Inr \<lparr>safe = False,
          reason = Some (''Command matches dangerous pattern: '' @
            bsl [''/rm'', ''s+(-[rRf]+'', ''s+)*[^'', ''s]*('', ''*|'', ''/'', ''s*$|~|'',
                 ''.'', ''.)/''])\<rparr>"
    by (simp add: checkAutoModeSafety_def danger_rm_rf_root)
  show "checkAutoModeSafety curdir ''Bash'' [(''command'', JStr ''ls -la'')] wd =
     Inr \<lparr>safe = True, reason = None\<rparr>"
    by (simp add: checkAutoModeSafety_def danger_ls_la)
  show "checkAutoModeSafety curdir ''Write'' [(''file_path'', JStr ''../../etc/passwd'')]
       (Some ''/home/user/project'') =
     Inr \<lparr>safe = False,
          reason = Some (''File path '' @ [dquote] @ ''../../etc/passwd'' @ [dquote] @
                         '' is outside working directory '' @ [dquote] @
                         ''/home/user/project'' @ [dquote])\<rparr>"
    by (simp add: checkAutoModeSafety_def truthy_def within_examples)
  show "checkAutoModeSafety curdir ''Write'' [(''file_path'', JStr ''src/index.ts'')]
       (Some ''/home/user/project'') =
     Inr \<lparr>safe = True, reason = None\<rparr>"
    by (simp add: checkAutoModeSafety_def truthy_def within_examples)
qed (rule checkAutoModeSafety_safe_iff)

theorem checkAutoModeSafety_examples_witness:
  "checkAutoModeSafety ''/srv'' ''Read'' [(''file_path'', JStr ''/etc/passwd'')]
     (Some ''/home/user/project'') = Inr \<lparr>safe = True, reason = None\<rparr> \<and>
   checkAutoModeSafety ''/srv'' ''Edit'' [(''file_path'', JStr ''/home/user/project/a/../b.ts'')]
     (Some ''/home/user/project'') = Inr \<lparr>safe = True, reason = None\<rparr>"
  using checkAutoModeSafety_examples[of "''/srv''" "Some ''/home/user/project''" "''Read''"
      "[(''file_path'', JStr ''/etc/passwd'')]" "Some ''/home/user/project''"]
    checkAutoModeSafety_examples[of "''/srv''" "Some ''/home/user/project''" "''Edit''"
      "[(''file_path'', JStr ''/home/user/project/a/../b.ts'')]" "Some ''/home/user/project''"]
  by (simp add: truthy_def js_truthy_def isWithinWorkingDirectory_def path_resolve_def
      startsWith_def Let_def)

section \<open>The auto mode callback\<close>




section \<open>Waiting for an approval\<close>

lemma pending_first_poll:
  "pending (checkApproval parse (wait_init False None))"
  "pending (checkApproval_timeout parse startTime startTime (wait_init False None))"
  by (simp_all add: pending_def checkApproval_def checkApproval_timeout_def wait_init_def
      poll_file_def timeout_def Let_def)

lemma pending_tick:
  "pending st \<Longrightarrow> pending (step parse None st (Tick now))"
  by (simp add: pending_def poll_def checkApproval_def poll_file_def)

lemma pending_tick_before_deadline:
  "pending st \<Longrightarrow> now - startTime \<le> timeout \<Longrightarrow>
   pending (step parse (Some startTime) st (Tick now))"
  by (simp add: pending_def poll_def checkApproval_timeout_def poll_file_def Let_def)

lemma pending_ticks:
  "pending st \<Longrightarrow> pending (foldl (step parse None) st (map Tick ts))"
  by (induction ts arbitrary: st) (simp_all add: pending_tick del: step.simps)

lemma pending_ticks_before_deadline:
  "pending st \<Longrightarrow> \<forall>t \<in> set ts. t - startTime \<le> timeout \<Longrightarrow>
   pending (foldl (step parse (Some startTime)) st (map Tick ts))"
  by (induction ts arbitrary: st) (simp_all add: pending_tick_before_deadline del: step.simps)

lemma tick_after_deadline:
  assumes "pending st" "now - startTime > timeout"
  shows "resolved (step parse (Some startTime) st (Tick now))"
    and "outcome (step parse (Some startTime) st (Tick now)) = Some timed_out"
    and "approvalFile (step parse (Some startTime) st (Tick now)) = None"
  using assms
  by (simp_all add: pending_def poll_def checkApproval_timeout_def Let_def resolve_def
      cleanup_def timed_out_def)

text \<open>Once the promise is settled no event changes its value, nor the approval file
  unless a click handler writes it.\<close>

lemma settled_step:
  assumes "resolved st" "outcome st = Some v"
  shows "resolved (step parse deadline st e) \<and> outcome (step parse deadline st e) = Some v"
  using assms
  by (cases e; cases deadline)
     (simp_all add: poll_def checkApproval_def checkApproval_timeout_def abortHandler_def)

lemma settled_steps:
  assumes "resolved st" "outcome st = Some v"
  shows "resolved (foldl (step parse deadline) st es) \<and>
         outcome (foldl (step parse deadline) st es) = Some v"
  using assms
proof (induction es arbitrary: st)
  case Nil
  then show ?case by simp
next
  case (Cons e es)
  from settled_step[OF Cons.prems, of parse deadline e] Cons.IH show ?case
    by (simp del: step.simps)
qed

lemma resolved_ticks_keep_file:
  assumes "resolved st"
  shows "approvalFile (foldl (step parse deadline) st (map Tick ts)) = approvalFile st \<and>
         outcome (foldl (step parse deadline) st (map Tick ts)) = outcome st \<and>
         resolved (foldl (step parse deadline) st (map Tick ts))"
  using assms
proof (induction ts arbitrary: st)
  case Nil
  then show ?case by simp
next
  case (Cons t ts)
  let ?st = "step parse deadline st (Tick t)"
  from Cons.prems have "resolved ?st \<and> approvalFile ?st = approvalFile st \<and> outcome ?st = outcome st"
    by (cases deadline) (simp_all add: poll_def checkApproval_def checkApproval_timeout_def)
  with Cons.IH[of ?st] show ?case by (simp del: step.simps)
qed

text \<open>
  Claim C1, as the code has it. In the revision of \<^verbatim>\<open>waitForApproval\<close> with the
  deadline, a wait that gets no approval file and no abort is still pending, with its
  next poll scheduled, after every poll up to 5 minutes from its start, and the first
  poll later than that resolves it to
  deny with the message "Permission request timed out", which is what the permission
  callback then returns; nothing that happens afterwards changes this. In the revision
  without the deadline such a wait stays pending, with its next poll scheduled, however
  late the polls come.
\<close>

theorem waitForApproval_deadline:
  "((\<forall>t \<in> set ts. t - startTime \<le> timeout) \<and> now - startTime > timeout \<longrightarrow>
      outcome (waitForApproval_timeout parse startTime False None (map Tick ts)) = None \<and>
      timer (waitForApproval_timeout parse startTime False None (map Tick ts)) \<and>
      outcome (waitForApproval_timeout parse startTime False None (map Tick ts @ Tick now # later)) =
        Some timed_out \<and>
      fst (createCanUseToolCallback ctx toolName input shown approvalId (Posted ts' chan)
             (outcome (waitForApproval_timeout parse startTime False None
                         (map Tick ts @ Tick now # later))) True) =
        Some \<lparr>behavior = Deny, updatedInput = None,
              message = Some ''Permission request timed out''\<rparr>) \<and>
   outcome (waitForApproval parse False None (map Tick ts)) = None \<and>
   timer (waitForApproval parse False None (map Tick ts))"
proof (intro conjI impI)
  let ?s0 = "checkApproval_timeout parse startTime startTime (wait_init False None)"
  assume a: "(\<forall>t \<in> set ts. t - startTime \<le> timeout) \<and> now - startTime > timeout"
  then have p: "pending (foldl (step parse (Some startTime)) ?s0 (map Tick ts))"
    using pending_ticks_before_deadline[OF pending_first_poll(2)] by blast
  then show "outcome (waitForApproval_timeout parse startTime False None (map Tick ts)) = None"
    "timer (waitForApproval_timeout parse startTime False None (map Tick ts))"
    by (simp_all add: waitForApproval_timeout_def pending_def)
  from a tick_after_deadline[OF p, of now]
  have "resolved (foldl (step parse (Some startTime)) ?s0 (map Tick ts @ [Tick now]))"
    "outcome (foldl (step parse (Some startTime)) ?s0 (map Tick ts @ [Tick now])) = Some timed_out"
    by (simp_all del: step.simps)
  from settled_steps[OF this, of parse "Some startTime" later]
  show o: "outcome (waitForApproval_timeout parse startTime False None
                  (map Tick ts @ Tick now # later)) = Some timed_out"
    by (simp add: waitForApproval_timeout_def del: step.simps)
  show "fst (createCanUseToolCallback ctx toolName input shown approvalId (Posted ts' chan)
             (outcome (waitForApproval_timeout parse startTime False None
                         (map Tick ts @ Tick now # later))) True) =
        Some \<lparr>behavior = Deny, updatedInput = None,
              message = Some ''Permission request timed out''\<rparr>"
    unfolding o by (simp add: createCanUseToolCallback_def timed_out_def truthy_def Let_def)
next
  have "pending (waitForApproval parse False None (map Tick ts))"
    unfolding waitForApproval_def by (rule pending_ticks[OF pending_first_poll(1)])
  then show "outcome (waitForApproval parse False None (map Tick ts)) = None"
    "timer (waitForApproval parse False None (map Tick ts))"
    by (simp_all add: pending_def)
qed

theorem waitForApproval_deadline_witness:
  "outcome (waitForApproval_timeout parse_example 1000 False None
             (map Tick [1500, 2000, 301000])) = None \<and>
   outcome (waitForApproval_timeout parse_example 1000 False None
             (map Tick [1500, 2000, 301000] @ Tick 301500 # [Deposit ''approved, edited'', Tick 302000])) =
     Some timed_out"
  using waitForApproval_deadline[of "[1500, 2000, 301000]" 1000 301500 parse_example
      "[Deposit ''approved, edited'', Tick 302000]"]
  by (simp add: timeout_def)

theorem waitForApproval_no_deadline_counterexample:
  "outcome (waitForApproval parse_example False None [Tick 500, Tick 300500, Tick 600000]) = None \<and>
   createCanUseToolCallback scope_example ''Bash'' [(''command'', JStr ''ls'')] ''{}'' ''approval_1''
     (Posted (Some ''1.5'') ''C042'')
     (outcome (waitForApproval parse_example False None [Tick 500, Tick 300500, Tick 600000])) True =
   (None, [PostMessage (approval_request scope_example ''Bash'' ''{}'' ''approval_1'')])"
proof -
  have "outcome (waitForApproval parse_example False None [Tick 500, Tick 300500, Tick 600000]) = None"
    by (simp add: waitForApproval_def wait_init_def checkApproval_def poll_file_def poll_def)
  then show ?thesis
    by (simp add: createCanUseToolCallback_def Let_def)
qed

section \<open>Cancellation\<close>

lemma aborted_at_call_step:
  assumes "aborted st" "\<not> timer st" "\<not> resolved st" "outcome st = None"
  shows "aborted (step parse deadline st e) \<and> \<not> timer (step parse deadline st e) \<and>
         \<not> resolved (step parse deadline st e) \<and> outcome (step parse deadline st e) = None"
  using assms by (cases e) simp_all

lemma aborted_at_call_steps:
  assumes "aborted st" "\<not> timer st" "\<not> resolved st" "outcome st = None"
  shows "outcome (foldl (step parse deadline) st es) = None"
  using assms
proof (induction es arbitrary: st)
  case Nil
  then show ?case by simp
next
  case (Cons e es)
  from aborted_at_call_step[OF Cons.prems, of parse deadline e] Cons.IH show ?case
    by (simp del: step.simps)
qed

text \<open>
  Claim C4, on the code. The approval file is written between two polls and the caller
  then aborts: the wait resolves to deny with "Request was aborted", but the file is
  still there, and no later poll removes it. That holds in both revisions. And a wait
  that starts with its signal already aborted never resolves, whatever happens.
\<close>

theorem abort_leaves_approval_file:
  "outcome (waitForApproval parse False None (Deposit content # Abort # map Tick ts)) =
     Some was_aborted \<and>
   approvalFile (waitForApproval parse False None (Deposit content # Abort # map Tick ts)) =
     Some content \<and>
   outcome (waitForApproval_timeout parse startTime False None
              (Deposit content # Abort # map Tick ts)) = Some was_aborted \<and>
   approvalFile (waitForApproval_timeout parse startTime False None
                   (Deposit content # Abort # map Tick ts)) = Some content \<and>
   outcome (waitForApproval parse True file events) = None \<and>
   outcome (waitForApproval_timeout parse startTime True file events) = None"
proof -
  let ?a = "foldl (step parse None) (checkApproval parse (wait_init False None))
              [Deposit content, Abort]"
  let ?b = "foldl (step parse (Some startTime))
              (checkApproval_timeout parse startTime startTime (wait_init False None))
              [Deposit content, Abort]"
  have a: "resolved ?a" "outcome ?a = Some was_aborted" "approvalFile ?a = Some content"
    by (simp_all add: checkApproval_def wait_init_def poll_file_def abortHandler_def
        resolve_def cleanup_def was_aborted_def)
  have b: "resolved ?b" "outcome ?b = Some was_aborted" "approvalFile ?b = Some content"
    by (simp_all add: checkApproval_timeout_def wait_init_def poll_file_def abortHandler_def
        resolve_def cleanup_def was_aborted_def timeout_def Let_def)
  have fa: "waitForApproval parse False None (Deposit content # Abort # map Tick ts) =
            foldl (step parse None) ?a (map Tick ts)"
    by (simp add: waitForApproval_def del: step.simps)
  have fb: "waitForApproval_timeout parse startTime False None (Deposit content # Abort # map Tick ts) =
            foldl (step parse (Some startTime)) ?b (map Tick ts)"
    by (simp add: waitForApproval_timeout_def del: step.simps)
  have c: "outcome (waitForApproval parse True file events) = None"
    unfolding waitForApproval_def
    by (rule aborted_at_call_steps) (simp_all add: checkApproval_def wait_init_def)
  have d: "outcome (waitForApproval_timeout parse startTime True file events) = None"
    unfolding waitForApproval_timeout_def
    by (rule aborted_at_call_steps) (simp_all add: checkApproval_timeout_def wait_init_def)
  show ?thesis
    unfolding fa fb
    using resolved_ticks_keep_file[OF a(1), of parse None ts]
      resolved_ticks_keep_file[OF b(1), of parse "Some startTime" ts] a b c d
    by simp
qed

section \<open>Resolution by an approval record\<close>

lemma record_consumed:
  assumes "parse content = Some response"
  shows "outcome (waitForApproval parse False None [Deposit content, Tick now]) = Some response"
    and "approvalFile (waitForApproval parse False None [Deposit content, Tick now]) = None"
  using assms
  by (simp_all add: waitForApproval_def checkApproval_def wait_init_def poll_file_def poll_def
      resolve_def cleanup_def)

lemma stems_from_poll_file:
  "stems_from parse A st \<Longrightarrow> stems_from parse A (poll_file parse st)"
  unfolding stems_from_def poll_file_def resolve_def cleanup_def
  by (auto split: option.splits)

lemma stems_from_checkApproval:
  "stems_from parse A st \<Longrightarrow> stems_from parse A (checkApproval parse st)"
proof -
  assume a: "stems_from parse A st"
  then have "stems_from parse A (st\<lparr>pollCount := pollCount st + 1\<rparr>)"
    by (simp add: stems_from_def)
  from stems_from_poll_file[OF this] a show ?thesis
    by (simp add: checkApproval_def)
qed

lemma stems_from_checkApproval_timeout:
  "stems_from parse A st \<Longrightarrow> stems_from parse A (checkApproval_timeout parse startTime now st)"
proof -
  assume a: "stems_from parse A st"
  then have b: "stems_from parse A (st\<lparr>pollCount := pollCount st + 1\<rparr>)"
    by (simp add: stems_from_def)
  have "stems_from parse A
          (resolve \<lparr>r_behavior = ''deny'', r_updatedInput = None,
                    r_message = Some ''Permission request timed out''\<rparr>
             (((cleanup (st\<lparr>pollCount := pollCount st + 1\<rparr>))\<lparr>listening := False\<rparr>)
                \<lparr>approvalFile := None\<rparr>))"
    using a unfolding stems_from_def resolve_def cleanup_def by auto
  with stems_from_poll_file[OF b] a show ?thesis
    by (simp add: checkApproval_timeout_def Let_def)
qed

lemma stems_from_step:
  assumes "stems_from parse A st"
  shows "stems_from parse (A \<union> (case e of Deposit c \<Rightarrow> {c} | _ \<Rightarrow> {})) (step parse deadline st e)"
proof (cases e)
  case (Tick now)
  from assms have t: "stems_from parse A (st\<lparr>timer := False\<rparr>)"
    by (simp add: stems_from_def)
  have "stems_from parse A (poll parse deadline now (st\<lparr>timer := False\<rparr>))"
    unfolding poll_def
    by (cases deadline)
       (simp_all add: stems_from_checkApproval[OF t] stems_from_checkApproval_timeout[OF t])
  with assms show ?thesis
    by (simp add: Tick)
next
  case Abort
  from assms show ?thesis
    unfolding Abort stems_from_def
    by (auto simp: abortHandler_def resolve_def cleanup_def)
next
  case (Deposit c)
  from assms show ?thesis
    unfolding Deposit stems_from_def by auto
qed

lemma stems_from_steps:
  "stems_from parse (deposits file []) st \<Longrightarrow>
   stems_from parse (deposits file events) (foldl (step parse deadline) st events)"
proof (induction events arbitrary: st rule: rev_induct)
  case Nil
  then show ?case by simp
next
  case (snoc e events)
  have "deposits file (events @ [e]) =
        deposits file events \<union> (case e of Deposit c \<Rightarrow> {c} | _ \<Rightarrow> {})"
    by (cases e) (auto simp: deposits_def)
  with stems_from_step[OF snoc.IH[OF snoc.prems], of e deadline] show ?case
    by simp
qed

lemma stems_from_init:
  "stems_from parse (deposits file []) (wait_init signalAborted file)"
  by (auto simp: stems_from_def wait_init_def deposits_def)

lemma allow_stems_from_record:
  assumes "w = waitForApproval parse signalAborted file events \<or>
           w = waitForApproval_timeout parse startTime signalAborted file events"
  shows "stems_from parse (deposits file events) w"
proof -
  have i: "stems_from parse (deposits file []) (wait_init signalAborted file)"
    by (rule stems_from_init)
  have a: "stems_from parse (deposits file events)
             (waitForApproval parse signalAborted file events)"
    unfolding waitForApproval_def
    by (rule stems_from_steps[OF stems_from_checkApproval[OF i]])
  have b: "stems_from parse (deposits file events)
             (waitForApproval_timeout parse startTime signalAborted file events)"
    unfolding waitForApproval_timeout_def
    by (rule stems_from_steps[OF stems_from_checkApproval_timeout[OF i]])
  from assms a b show ?thesis
    by auto
qed

text \<open>
  Claim C3, as the code has it. Whatever happened while \<^verbatim>\<open>waitForApproval\<close> was pending,
  in either revision: when it has resolved with behaviour "allow", its value is the
  record parsed from a content of the approval file, and, the notification update having
  gone through, \<^verbatim>\<open>createCanUseToolCallback\<close> returns Allow with the tool input it was
  called with. An \<^verbatim>\<open>updatedInput\<close> in the record is not looked at.
\<close>

theorem createCanUseToolCallback_allow:
  assumes "w = waitForApproval parse signalAborted file events \<or>
           w = waitForApproval_timeout parse startTime signalAborted file events"
    and "outcome w = Some response"
    and "r_behavior response = ''allow''"
    and "truthy ts \<longrightarrow> updateOk"
  shows "(\<exists>content \<in> deposits file events. parse content = Some response) \<and>
         fst (createCanUseToolCallback ctx toolName input shown approvalId (Posted ts chan)
                (outcome w) updateOk) =
           Some \<lparr>behavior = Allow, updatedInput = Some input, message = None\<rparr>"
proof
  from allow_stems_from_record[OF assms(1)] assms(2,3)
  show "\<exists>content \<in> deposits file events. parse content = Some response"
    unfolding stems_from_def by blast
  from assms(3,4)
  show "fst (createCanUseToolCallback ctx toolName input shown approvalId (Posted ts chan)
                (outcome w) updateOk) =
           Some \<lparr>behavior = Allow, updatedInput = Some input, message = None\<rparr>"
    unfolding assms(2) by (auto simp: createCanUseToolCallback_def Let_def)
qed

theorem createCanUseToolCallback_allow_witness:
  "outcome (waitForApproval parse_example False None [Deposit ''approved, edited'', Tick 500]) =
     Some edited_record \<and>
   r_behavior edited_record = ''allow'' \<and>
   deposits None [Deposit ''approved, edited'', Tick 500] = {''approved, edited''} \<and>
   parse_example ''approved, edited'' = Some edited_record \<and>
   fst (createCanUseToolCallback scope_example ''Bash'' [(''command'', JStr ''ls'')] ''{}''
          ''approval_1'' (Posted (Some ''1.5'') ''C042'')
          (outcome (waitForApproval parse_example False None
                      [Deposit ''approved, edited'', Tick 500])) True) =
     Some \<lparr>behavior = Allow, updatedInput = Some [(''command'', JStr ''ls'')], message = None\<rparr>"
proof -
  have p: "parse_example ''approved, edited'' = Some edited_record"
    by (simp add: parse_example_def)
  note o = record_consumed(1)[of parse_example "''approved, edited''" edited_record 500, OF p]
  have b: "r_behavior edited_record = ''allow''"
    by (simp add: edited_record_def)
  have u: "truthy (Some ''1.5'') \<longrightarrow> True"
    by simp
  from createCanUseToolCallback_allow[OF disjI1[OF refl] o b u, where ctx = scope_example
      and toolName = "''Bash''" and input = "[(''command'', JStr ''ls'')]" and shown = "''{}''"
      and approvalId = "''approval_1''" and chan = "''C042''"] o b p
  show ?thesis
    by (simp add: deposits_def)
qed

theorem edited_input_counterexample:
  "r_updatedInput (the (outcome (waitForApproval parse_example False None
                                   [Deposit ''approved, edited'', Tick 500]))) =
     Some [(''command'', JStr ''ls -la'')] \<and>
   fst (createCanUseToolCallback scope_example ''Bash'' [(''command'', JStr ''ls'')] ''{}''
          ''approval_1'' (Posted (Some ''1.5'') ''C042'')
          (outcome (waitForApproval parse_example False None
                      [Deposit ''approved, edited'', Tick 500])) True) \<noteq>
     Some \<lparr>behavior = Allow, updatedInput = Some [(''command'', JStr ''ls -la'')], message = None\<rparr>"
proof -
  have p: "parse_example ''approved, edited'' = Some edited_record"
    by (simp add: parse_example_def)
  show ?thesis
    unfolding record_consumed(1)[of parse_example "''approved, edited''" edited_record 500, OF p]
    by (simp add: createCanUseToolCallback_def Let_def edited_record_def truthy_def)
qed

section \<open>Maps and the backup directory\<close>

lemma map_of_map_set: "map_of (map_set k v m) = (map_of m)(k \<mapsto> v)"
  by (induction m) (auto simp: fun_eq_iff)

lemma map_of_map_delete: "map_of (map_delete k m) = (map_of m)(k := None)"
  by (induction m) (auto simp: map_delete_def fun_eq_iff)

lemma map_set_fresh: "k \<notin> fst ` set m \<Longrightarrow> map_set k v m = m @ [(k, v)]"
  by (induction m) auto

lemma fold_map_set_distinct:
  assumes "distinct (map fst xs)" "fst ` set xs \<inter> fst ` set acc = {}"
  shows "fold (\<lambda>e m. map_set (fst e) (g e) m) xs acc = acc @ map (\<lambda>e. (fst e, g e)) xs"
  using assms
proof (induction xs arbitrary: acc)
  case Nil
  then show ?case by simp
next
  case (Cons x xs)
  from Cons.prems have fresh: "fst x \<notin> fst ` set acc" by auto
  have "fst ` set xs \<inter> fst ` set (acc @ [(fst x, g x)]) = {}"
    using Cons.prems by auto
  with Cons.IH[of "acc @ [(fst x, g x)]"] Cons.prems(1) show ?case
    by (simp add: map_set_fresh[OF fresh])
qed

lemma those_map_Some:
  "(\<forall>x \<in> set xs. f x \<noteq> None) \<Longrightarrow> those (map f xs) = Some (map (\<lambda>x. the (f x)) xs)"
  by (induction xs) auto

lemma fold_unlinkSync: "fold unlinkSync ns d = filter (\<lambda>e. fst e \<notin> set ns) d"
proof (induction ns arbitrary: d)
  case Nil
  then show ?case by simp
next
  case (Cons n ns)
  have "fold unlinkSync (n # ns) d = fold unlinkSync ns (unlinkSync n d)" by simp
  also have "\<dots> = filter (\<lambda>e. fst e \<notin> set ns) (unlinkSync n d)" by (rule Cons.IH)
  also have "\<dots> = filter (\<lambda>e. fst e \<notin> set (n # ns)) d"
    by (simp add: unlinkSync_def map_delete_def conj_commute)
  finally show ?case .
qed

lemma cleanupOldBackups_filter:
  "cleanupOldBackups keepCount d =
     filter (\<lambda>e. fst e \<notin> set (drop keepCount (rev (sort (filter is_dated (readdirSync d)))))) d"
  by (simp add: cleanupOldBackups_def Let_def fold_unlinkSync)

lemma map_of_filter_names:
  "map_of (filter (\<lambda>e. fst e \<notin> S) d) name = (if name \<in> S then None else map_of d name)"
  by (induction d) auto

lemma cleanupOldBackups_other:
  "\<not> is_dated name \<Longrightarrow> map_get (cleanupOldBackups keepCount d) name = map_get d name"
proof -
  assume n: "\<not> is_dated name"
  have "name \<notin> set (drop keepCount (rev (sort (filter is_dated (readdirSync d)))))"
    using n in_set_dropD by fastforce
  then show ?thesis
    unfolding cleanupOldBackups_filter map_get_def map_of_filter_names by simp
qed

lemma backupFile_not_dated: "\<not> is_dated backupFile" "\<not> is_dated (backupFile @ ''.tmp'')"
  by (simp_all add: is_dated_def backupFile_def startsWith_def)

lemma timestampedFile_dated: "is_dated (timestampedFile toISOString now)"
  by (simp add: is_dated_def timestampedFile_def startsWith_def endsWith_def)

lemma timestampedFile_neq:
  "timestampedFile toISOString now \<noteq> backupFile"
  "timestampedFile toISOString now \<noteq> backupFile @ ''.tmp''"
  using timestampedFile_dated[of toISOString now] backupFile_not_dated by auto

text \<open>After a save that built its snapshot, the canonical file holds that snapshot.\<close>

lemma saveBackup_backupFile:
  assumes "snapshot toISOString sessions_map workingDirs now = Some b"
  shows "map_get (saveBackup toISOString stringify sessions_map workingDirs now now' d) backupFile =
         Some (stringify b)"
proof -
  let ?tmp = "backupFile @ ''.tmp''"
  let ?d2 = "renameSync ?tmp backupFile (writeFileSync ?tmp (stringify b) d)"
  have d2: "map_get ?d2 backupFile = Some (stringify b)"
    by (simp add: renameSync_def writeFileSync_def unlinkSync_def map_get_def map_of_map_set)
  have w: "map_get (writeFileSync (timestampedFile toISOString now') c ?d2) backupFile =
           map_get ?d2 backupFile" for c
    using timestampedFile_neq(1)[of toISOString now']
    by (simp add: writeFileSync_def map_get_def map_of_map_set)
  have "map_get (createTimestampedBackup toISOString (stringify b) now' ?d2) backupFile =
        map_get ?d2 backupFile"
    unfolding createTimestampedBackup_def Let_def
    by (simp add: cleanupOldBackups_other[OF backupFile_not_dated(1)] w)
  with d2 show ?thesis
    by (simp add: saveBackup_def assms Let_def)
qed

lemma keys_map_set: "fst ` set (map_set k v m) = insert k (fst ` set m)"
proof (induction m)
  case Nil
  then show ?case by simp
next
  case (Cons e m)
  obtain a b where e: "e = (a, b)" by (cases e)
  show ?case
  proof (cases "a = k")
    case True
    then show ?thesis by (simp add: e)
  next
    case False
    then show ?thesis using Cons.IH by (simp add: e insert_commute)
  qed
qed

lemma distinct_map_set: "distinct (map fst m) \<Longrightarrow> distinct (map fst (map_set k v m))"
proof (induction m)
  case Nil
  then show ?case by simp
next
  case (Cons e m)
  show ?case
  proof (cases "fst e = k")
    case True
    with Cons.prems show ?thesis by (cases e) auto
  next
    case False
    with Cons.prems have "fst e \<notin> fst ` set (map_set k v m)"
      unfolding keys_map_set by auto
    with False Cons show ?thesis by (cases e) auto
  qed
qed

section \<open>Snapshot round trip\<close>

lemma keys_obj_set: "fst ` set (obj_set k v obj) = insert k (fst ` set obj)"
proof -
  let ?smaller = "\<lambda>e. is_array_index (fst e) \<and> index_value (fst e) < index_value k"
  have "set (takeWhile ?smaller obj) \<union> set (dropWhile ?smaller obj) = set obj"
    by (metis set_append takeWhile_dropWhile_id)
  then have "fst ` set (takeWhile ?smaller obj @ (k, v) # dropWhile ?smaller obj) =
             insert k (fst ` set obj)"
    by (simp add: image_Un[symmetric] Un_commute)
  then show ?thesis
    by (simp add: obj_set_def Let_def keys_map_set)
qed

lemma map_of_obj_set: "map_of (obj_set k v obj) = (map_of obj)(k \<mapsto> v)"
proof (cases "k \<in> fst ` set obj")
  case True
  then show ?thesis by (simp add: obj_set_def map_of_map_set)
next
  case False
  let ?smaller = "\<lambda>e. is_array_index (fst e) \<and> index_value (fst e) < index_value k"
  have split: "takeWhile ?smaller obj @ dropWhile ?smaller obj = obj"
    by (rule takeWhile_dropWhile_id)
  have "k \<notin> fst ` set (takeWhile ?smaller obj)"
    using False by (auto dest: set_takeWhileD)
  then have fresh: "map_of (takeWhile ?smaller obj) k = None"
    by (simp add: map_of_eq_None_iff)
  have "map_of (takeWhile ?smaller obj @ (k, v) # dropWhile ?smaller obj) =
        (map_of (dropWhile ?smaller obj))(k \<mapsto> v) ++ map_of (takeWhile ?smaller obj)"
    by simp
  also have "\<dots> = (map_of (dropWhile ?smaller obj) ++ map_of (takeWhile ?smaller obj))(k \<mapsto> v)"
    using fresh by (auto simp: map_add_def fun_eq_iff split: option.splits)
  also have "map_of (dropWhile ?smaller obj) ++ map_of (takeWhile ?smaller obj) = map_of obj"
    by (metis map_of_append split)
  finally have index: "map_of (takeWhile ?smaller obj @ (k, v) # dropWhile ?smaller obj) =
                       (map_of obj)(k \<mapsto> v)" .
  have last: "map_of (obj @ [(k, v)]) = (map_of obj)(k \<mapsto> v)"
  proof (rule ext)
    fix x
    have "map_of obj k = None"
      using False by (simp add: map_of_eq_None_iff)
    then show "map_of (obj @ [(k, v)]) x = ((map_of obj)(k \<mapsto> v)) x"
      by (cases "map_of obj x") (auto simp: map_add_def)
  qed
  from False index last show ?thesis
    by (simp add: obj_set_def Let_def)
qed

lemma distinct_obj_set:
  assumes "distinct (map fst obj)"
  shows "distinct (map fst (obj_set k v obj))"
proof (cases "k \<in> fst ` set obj")
  case True
  with assms show ?thesis by (simp add: obj_set_def distinct_map_set)
next
  case False
  let ?smaller = "\<lambda>e. is_array_index (fst e) \<and> index_value (fst e) < index_value k"
  have "distinct (map fst (takeWhile ?smaller obj @ dropWhile ?smaller obj))"
    using assms by simp
  then have d: "distinct (map fst (takeWhile ?smaller obj))"
    "distinct (map fst (dropWhile ?smaller obj))"
    "fst ` set (takeWhile ?smaller obj) \<inter> fst ` set (dropWhile ?smaller obj) = {}"
    by (simp_all only: map_append distinct_append set_map)
  have "set (takeWhile ?smaller obj) \<subseteq> set obj" "set (dropWhile ?smaller obj) \<subseteq> set obj"
    by (auto dest: set_takeWhileD set_dropWhileD)
  with False have k: "k \<notin> fst ` set (takeWhile ?smaller obj)"
    "k \<notin> fst ` set (dropWhile ?smaller obj)"
    by auto
  from d k have "distinct (map fst (takeWhile ?smaller obj @ (k, v) # dropWhile ?smaller obj))"
    by auto
  moreover from assms False have "distinct (map fst (obj @ [(k, v)]))"
    by auto
  ultimately show ?thesis
    using False by (simp add: obj_set_def Let_def)
qed

lemma obj_set_plain: "\<not> is_array_index k \<Longrightarrow> obj_set k v obj = map_set k v obj"
  by (simp add: obj_set_def Let_def map_set_fresh)

lemma fold_obj_set:
  "distinct (map fst acc) \<Longrightarrow>
   distinct (map fst (fold (\<lambda>e obj. obj_set (fst e) (snd e) obj) m acc)) \<and>
   map_of (fold (\<lambda>e obj. obj_set (fst e) (snd e) obj) m acc) = map_of acc ++ map_of (rev m)"
proof (induction m arbitrary: acc)
  case Nil
  then show ?case by simp
next
  case (Cons e m)
  from Cons.IH[OF distinct_obj_set[OF Cons.prems, of "fst e" "snd e"]]
  show ?case
    by (cases e) (simp add: map_of_obj_set map_add_def fun_eq_iff split: option.splits)
qed

lemma map_of_rev: "distinct (map fst m) \<Longrightarrow> map_of (rev m) = map_of m"
  by (rule map_of_inject_set[THEN iffD2]) (simp_all add: rev_map[symmetric])

lemma fromEntries_content:
  assumes "distinct (map fst m)"
  shows "distinct (map fst (fromEntries m))" "map_of (fromEntries m) = map_of m"
  using fold_obj_set[of "[]" m] map_of_rev[OF assms]
  by (simp_all add: fromEntries_def)

lemma fromEntries_plain:
  assumes "distinct (map fst m)" "list_all (\<lambda>k. \<not> is_array_index k) (map fst m)"
  shows "fromEntries m = m"
proof -
  have "fold (\<lambda>e obj. obj_set (fst e) (snd e) obj) m acc =
        fold (\<lambda>e obj. map_set (fst e) (snd e) obj) m acc" for acc
    using assms(2)
    by (intro fold_cong) (auto simp: list_all_iff obj_set_plain)
  then show ?thesis
    unfolding fromEntries_def
    using fold_map_set_distinct[OF assms(1), of "[]" snd] by simp
qed

lemma restore_workingDirs:
  "distinct (map fst m) \<Longrightarrow> fold (\<lambda>e acc. map_set (fst e) (snd e) acc) m [] = m"
  using fold_map_set_distinct[of m "[]" snd] by simp

lemma fromEntries_examples:
  "fromEntries dirs_example = dirs_example"
  "fromEntries [(''C9'', ''/a''), (''10'', ''/b''), (''9'', ''/c''), (''007'', ''/d'')] =
     [(''9'', ''/c''), (''10'', ''/b''), (''C9'', ''/a''), (''007'', ''/d'')]"
  by (simp_all add: fromEntries_def obj_set_def dirs_example_def is_array_index_def
      is_digit_def index_value_def less_eq_char_def less_char_def)

lemma snapshot_example:
  "snapshot iso_example sessions_example dirs_example 1700000000000 = Some backup_example"
proof -
  have "bk_workingDirectories backup_example = dirs_example"
    by (simp add: backup_example_def dirs_example_def)
  then show ?thesis
    by (simp add: snapshot_def sessions_example_def serialize_session_def
        fromEntries_examples(1) iso_example_def backup_example_def)
qed

lemma valid_dates_round_trip:
  assumes keys: "distinct (map fst sessions_map)" "distinct (map fst workingDirs)"
    and dates: "\<forall>e \<in> set sessions_map. \<exists>t. lastActivity (snd e) = Date t \<and>
                  newDate (toISOString t) = Date t"
    and json: "\<forall>b. snapshot toISOString sessions_map workingDirs now = Some b \<longrightarrow>
                  parse (stringify b) = Some b"
  shows "\<exists>b. loadBackup parse
               (saveBackup toISOString stringify sessions_map workingDirs now now' d) = Some b \<and>
             fst (restoreSessions newDate b) = sessions_map \<and>
             distinct (map fst (snd (restoreSessions newDate b))) \<and>
             map_of (snd (restoreSessions newDate b)) = map_of workingDirs \<and>
             (list_all (\<lambda>k. \<not> is_array_index k) (map fst workingDirs) \<longrightarrow>
                snd (restoreSessions newDate b) = workingDirs)"
proof -
  let ?ser = "\<lambda>e. the (serialize_session toISOString e)"
  have ok: "\<forall>e \<in> set sessions_map. serialize_session toISOString e \<noteq> None"
    using dates by (auto simp: serialize_session_def)
  define b where "b = \<lparr>bk_sessions = map ?ser sessions_map,
                        bk_workingDirectories = fromEntries workingDirs,
                        bk_timestamp = toISOString now, bk_version = 1\<rparr>"
  have snap: "snapshot toISOString sessions_map workingDirs now = Some b"
    by (simp add: snapshot_def those_map_Some[OF ok] b_def)
  have load: "loadBackup parse
               (saveBackup toISOString stringify sessions_map workingDirs now now' d) = Some b"
    using json snap by (simp add: loadBackup_def saveBackup_backupFile[OF snap])
  have again: "(ser_key (?ser e),
               \<lparr>userId = ser_userId (?ser e), channelId = ser_channelId (?ser e),
                threadTs = ser_threadTs (?ser e), sessionId = ser_sessionId (?ser e),
                isActive = ser_isActive (?ser e),
                lastActivity = newDate (ser_lastActivity (?ser e))\<rparr>) = e"
    if "e \<in> set sessions_map" for e
  proof -
    from dates that obtain t where "lastActivity (snd e) = Date t" "newDate (toISOString t) = Date t"
      by blast
    then show ?thesis
      by (cases e) (simp add: serialize_session_def)
  qed
  have keys_ser: "map fst (map (\<lambda>s. (ser_key s, s)) (map ?ser sessions_map)) = map fst sessions_map"
  proof -
    have "ser_key (?ser e) = fst e" if "e \<in> set sessions_map" for e
      using again[OF that] by (metis fst_conv)
    then show ?thesis by simp
  qed
  let ?g = "\<lambda>p. \<lparr>userId = ser_userId (snd p), channelId = ser_channelId (snd p),
                threadTs = ser_threadTs (snd p), sessionId = ser_sessionId (snd p),
                isActive = ser_isActive (snd p),
                lastActivity = newDate (ser_lastActivity (snd p))\<rparr>"
  have "fold (\<lambda>s m. map_set (ser_key s)
                    \<lparr>userId = ser_userId s, channelId = ser_channelId s,
                     threadTs = ser_threadTs s, sessionId = ser_sessionId s,
                     isActive = ser_isActive s, lastActivity = newDate (ser_lastActivity s)\<rparr> m)
          (map ?ser sessions_map) [] =
        fold (\<lambda>p m. map_set (fst p) (?g p) m) (map (\<lambda>s. (ser_key s, s)) (map ?ser sessions_map)) []"
    by (simp add: fold_map comp_def)
  also have "\<dots> = map (\<lambda>p. (fst p, ?g p)) (map (\<lambda>s. (ser_key s, s)) (map ?ser sessions_map))"
  proof -
    have dk: "distinct (map fst (map (\<lambda>s. (ser_key s, s)) (map ?ser sessions_map)))"
      unfolding keys_ser by (rule keys(1))
    from fold_map_set_distinct[OF dk, of "[]" ?g] show ?thesis by simp
  qed
  also have "\<dots> = sessions_map"
    using again by (simp add: comp_def map_idI)
  finally have s: "fst (restoreSessions newDate b) = sessions_map"
    by (simp add: restoreSessions_def b_def)
  note content = fromEntries_content[OF keys(2)]
  have w: "snd (restoreSessions newDate b) = fromEntries workingDirs"
    by (simp add: restoreSessions_def b_def restore_workingDirs[OF content(1)])
  have plain: "snd (restoreSessions newDate b) = workingDirs"
    if "list_all (\<lambda>k. \<not> is_array_index k) (map fst workingDirs)"
    unfolding w by (rule fromEntries_plain[OF keys(2) that])
  show ?thesis
  proof (intro exI[of _ b] conjI impI)
    show "loadBackup parse
            (saveBackup toISOString stringify sessions_map workingDirs now now' d) = Some b"
      by (rule load)
    show "fst (restoreSessions newDate b) = sessions_map"
      by (rule s)
    show "distinct (map fst (snd (restoreSessions newDate b)))"
      unfolding w by (rule content(1))
    show "map_of (snd (restoreSessions newDate b)) = map_of workingDirs"
      unfolding w by (rule content(2))
    assume "list_all (\<lambda>k. \<not> is_array_index k) (map fst workingDirs)"
    then show "snd (restoreSessions newDate b) = workingDirs"
      by (rule plain)
  qed
qed

lemma those_None:
  "\<exists>x \<in> set xs. f x = None \<Longrightarrow> those (map f xs) = None"
  by (induction xs) (auto split: option.splits)

lemma invalid_date_no_snapshot:
  assumes "\<exists>e \<in> set sessions_map. lastActivity (snd e) = InvalidDate"
  shows "saveBackup toISOString stringify sessions_map workingDirs now now' d = d"
proof -
  from assms obtain e where e: "e \<in> set sessions_map" "lastActivity (snd e) = InvalidDate"
    by blast
  from e(2) have "serialize_session toISOString e = None"
    by (simp add: serialize_session_def)
  with e(1) have "\<exists>e \<in> set sessions_map. serialize_session toISOString e = None"
    by blast
  then have "snapshot toISOString sessions_map workingDirs now = None"
    by (simp add: snapshot_def those_None)
  then show ?thesis
    by (simp add: saveBackup_def)
qed

text \<open>
  Claim C8, as the code has it. For a session table and a working-directory map (Maps,
  so with distinct keys) whose sessions all have valid dates, after \<^verbatim>\<open>saveBackup\<close> the
  snapshot read by \<^verbatim>\<open>loadBackup\<close> and rebuilt by \<^verbatim>\<open>restoreSessions\<close> gives the session
  table that was saved, same keys, same fields, same order, and a working-directory map
  with the same keys and the same directories. The working directories come back in the
  order of the properties of the snapshot's object: the order in which they were saved
  when no key is an array index. The snapshot's own timestamp plays no part. The library
  functions are parameters, with what is used of them as hypotheses: \<^verbatim>\<open>new Date\<close> reads
  back what \<^verbatim>\<open>toISOString\<close> wrote for the dates of the table, and \<^verbatim>\<open>JSON.parse\<close> reads
  back what \<^verbatim>\<open>JSON.stringify\<close> wrote for this snapshot. When the last activity of some
  session is an Invalid Date, \<^verbatim>\<open>saveBackup\<close> leaves the directory as it is.
\<close>

theorem backup_round_trip:
  assumes "distinct (map fst sessions_map)" "distinct (map fst workingDirs)"
  shows
    "((\<forall>e \<in> set sessions_map. \<exists>t. lastActivity (snd e) = Date t \<and>
                                   newDate (toISOString t) = Date t) \<and>
      (\<forall>b. snapshot toISOString sessions_map workingDirs now = Some b \<longrightarrow>
            parse (stringify b) = Some b) \<longrightarrow>
        (\<exists>b. loadBackup parse
                (saveBackup toISOString stringify sessions_map workingDirs now now' d) = Some b \<and>
              fst (restoreSessions newDate b) = sessions_map \<and>
              distinct (map fst (snd (restoreSessions newDate b))) \<and>
              map_of (snd (restoreSessions newDate b)) = map_of workingDirs \<and>
              (list_all (\<lambda>k. \<not> is_array_index k) (map fst workingDirs) \<longrightarrow>
                 snd (restoreSessions newDate b) = workingDirs))) \<and>
     ((\<exists>e \<in> set sessions_map. lastActivity (snd e) = InvalidDate) \<longrightarrow>
        saveBackup toISOString stringify sessions_map workingDirs now now' d = d)"
proof (intro conjI impI)
  assume "(\<forall>e \<in> set sessions_map. \<exists>t. lastActivity (snd e) = Date t \<and>
                                   newDate (toISOString t) = Date t) \<and>
      (\<forall>b. snapshot toISOString sessions_map workingDirs now = Some b \<longrightarrow>
            parse (stringify b) = Some b)"
  then have dates: "\<forall>e \<in> set sessions_map. \<exists>t. lastActivity (snd e) = Date t \<and>
                                   newDate (toISOString t) = Date t"
    and json: "\<forall>b. snapshot toISOString sessions_map workingDirs now = Some b \<longrightarrow>
            parse (stringify b) = Some b"
    by simp_all
  show "\<exists>b. loadBackup parse
                (saveBackup toISOString stringify sessions_map workingDirs now now' d) = Some b \<and>
              fst (restoreSessions newDate b) = sessions_map \<and>
              distinct (map fst (snd (restoreSessions newDate b))) \<and>
              map_of (snd (restoreSessions newDate b)) = map_of workingDirs \<and>
              (list_all (\<lambda>k. \<not> is_array_index k) (map fst workingDirs) \<longrightarrow>
                 snd (restoreSessions newDate b) = workingDirs)"
    by (rule valid_dates_round_trip[OF assms dates json])
next
  assume "\<exists>e \<in> set sessions_map. lastActivity (snd e) = InvalidDate"
  then show "saveBackup toISOString stringify sessions_map workingDirs now now' d = d"
    by (rule invalid_date_no_snapshot)
qed

theorem backup_round_trip_witness:
  "distinct (map fst sessions_example) \<and> distinct (map fst dirs_example) \<and>
   snapshot iso_example sessions_example dirs_example 1700000000000 = Some backup_example \<and>
   list_all (\<lambda>k. \<not> is_array_index k) (map fst dirs_example) \<and>
   (\<exists>b. loadBackup parse_backup_example
          (saveBackup iso_example stringify_example sessions_example dirs_example
             1700000000000 1700000000000 []) = Some b \<and>
        restoreSessions date_example b = (sessions_example, dirs_example)) \<and>
   distinct (map fst invalid_date_example) \<and>
   map (lastActivity \<circ> snd) invalid_date_example = [InvalidDate] \<and>
   saveBackup iso_example stringify_example invalid_date_example dirs_example
     1700000000000 1700000000000 [(''sessions.json'', ''{}'')] = [(''sessions.json'', ''{}'')]"
proof -
  have ki: "distinct (map fst invalid_date_example)"
    by (simp add: invalid_date_example_def)
  have inv: "\<exists>e \<in> set invalid_date_example. lastActivity (snd e) = InvalidDate"
    by (simp add: invalid_date_example_def)
  have k: "distinct (map fst sessions_example)" "distinct (map fst dirs_example)"
    by (simp_all add: sessions_example_def dirs_example_def)
  have dts: "\<forall>e \<in> set sessions_example. \<exists>t. lastActivity (snd e) = Date t \<and>
                  date_example (iso_example t) = Date t"
    by (simp add: sessions_example_def iso_example_def date_example_def)
  note snap = snapshot_example
  have js: "\<forall>b. snapshot iso_example sessions_example dirs_example 1700000000000 = Some b \<longrightarrow>
                  parse_backup_example (stringify_example b) = Some b"
    by (simp add: snap stringify_example_def parse_backup_example_def)
  have plain: "list_all (\<lambda>k. \<not> is_array_index k) (map fst dirs_example)"
    by (simp add: dirs_example_def is_array_index_def is_digit_def less_eq_char_def)
  from backup_round_trip[OF k, of date_example iso_example 1700000000000 parse_backup_example
      stringify_example 1700000000000 "[]"] dts js
  obtain b where b: "loadBackup parse_backup_example
          (saveBackup iso_example stringify_example sessions_example dirs_example
             1700000000000 1700000000000 []) = Some b"
    "fst (restoreSessions date_example b) = sessions_example"
    "list_all (\<lambda>k. \<not> is_array_index k) (map fst dirs_example) \<longrightarrow>
       snd (restoreSessions date_example b) = dirs_example"
    by blast
  from b(2) b(3) plain have "restoreSessions date_example b = (sessions_example, dirs_example)"
    by (metis prod.collapse)
  with b(1) have valid: "\<exists>b. loadBackup parse_backup_example
          (saveBackup iso_example stringify_example sessions_example dirs_example
             1700000000000 1700000000000 []) = Some b \<and>
        restoreSessions date_example b = (sessions_example, dirs_example)"
    by blast
  from backup_round_trip[OF ki k(2), of date_example iso_example 1700000000000
      parse_backup_example stringify_example 1700000000000 "[(''sessions.json'', ''{}'')]"] inv
  have "saveBackup iso_example stringify_example invalid_date_example dirs_example
     1700000000000 1700000000000 [(''sessions.json'', ''{}'')] = [(''sessions.json'', ''{}'')]"
    by blast
  moreover have "map (lastActivity \<circ> snd) invalid_date_example = [InvalidDate]"
    by (simp add: invalid_date_example_def)
  ultimately show ?thesis
    using k snap plain valid ki by blast
qed

text \<open>
  A session whose last activity is an Invalid Date: \<^verbatim>\<open>toISOString\<close> throws, the
  \<^verbatim>\<open>catch\<close> of \<^verbatim>\<open>saveBackup\<close> logs the error and no file is written, so in an empty
  directory there is nothing to load and nothing is restored.
\<close>

theorem invalid_date_counterexample:
  "saveBackup iso_example stringify_example invalid_date_example dirs_example
     1700000000000 1700000000000 [] = [] \<and>
   map_option (restoreSessions date_example)
     (loadBackup parse_backup_example
        (saveBackup iso_example stringify_example invalid_date_example dirs_example
           1700000000000 1700000000000 [])) \<noteq>
     Some (invalid_date_example, dirs_example)"
proof -
  have "snapshot iso_example invalid_date_example dirs_example 1700000000000 = None"
    by (simp add: snapshot_def invalid_date_example_def serialize_session_def)
  then have "saveBackup iso_example stringify_example invalid_date_example dirs_example
     1700000000000 1700000000000 [] = []"
    by (simp add: saveBackup_def)
  then show ?thesis
    by (simp add: loadBackup_def map_get_def)
qed

section \<open>Dated copies and their pruning\<close>

lemma existsSync_iff: "existsSync d name \<longleftrightarrow> name \<in> set (readdirSync d)"
  by (simp add: existsSync_def map_get_def readdirSync_def map_of_eq_None_iff)

lemma distinct_map_delete: "distinct (map fst m) \<Longrightarrow> distinct (map fst (map_delete k m))"
  by (simp add: map_delete_def distinct_map_filter)

lemma dated_files_map_set_other:
  "\<not> is_dated k \<Longrightarrow> dated_files (map_set k v m) = dated_files m"
  by (induction m) (auto simp: dated_files_def readdirSync_def)

lemma dated_files_map_delete_other:
  "\<not> is_dated k \<Longrightarrow> dated_files (map_delete k m) = dated_files m"
  by (induction m) (auto simp: dated_files_def readdirSync_def map_delete_def)

text \<open>Writing the canonical file through its temporary file leaves the dated copies alone.\<close>

lemma canonical_write:
  fixes d :: directory and content :: string
  defines "d2 \<equiv> renameSync (backupFile @ ''.tmp'') backupFile
                  (writeFileSync (backupFile @ ''.tmp'') content d)"
  assumes "distinct (map fst d)"
  shows "distinct (map fst d2)" and "dated_files d2 = dated_files d"
    and "is_dated f \<Longrightarrow> map_get d2 f = map_get d f"
proof -
  let ?tmp = "backupFile @ ''.tmp''"
  have d2: "d2 = map_set backupFile content (map_delete ?tmp (map_set ?tmp content d))"
    by (simp add: d2_def renameSync_def writeFileSync_def unlinkSync_def map_get_def map_of_map_set)
  show "distinct (map fst d2)"
    unfolding d2 by (intro distinct_map_set distinct_map_delete assms)
  show "dated_files d2 = dated_files d"
    unfolding d2
    by (simp add: dated_files_map_set_other dated_files_map_delete_other backupFile_not_dated)
  show "map_get d2 f = map_get d f" if "is_dated f"
  proof -
    from that backupFile_not_dated have "f \<noteq> backupFile" "f \<noteq> ?tmp" by auto
    then show ?thesis
      unfolding d2 by (simp add: map_get_def map_of_map_set map_of_map_delete)
  qed
qed

lemma dated_names_filter:
  "filter is_dated (map fst (filter (\<lambda>e. fst e \<notin> S) d)) =
   filter (\<lambda>n. n \<notin> S) (filter is_dated (map fst d))"
  by (induction d) auto

lemma dated_files_cleanup:
  "dated_files (cleanupOldBackups keepCount d) =
     filter (\<lambda>n. n \<notin> set (drop keepCount (rev (sort (dated_files d))))) (dated_files d)"
  unfolding cleanupOldBackups_filter dated_files_def readdirSync_def
  by (rule dated_names_filter)

lemma distinct_cleanup:
  "distinct (map fst d) \<Longrightarrow> distinct (map fst (cleanupOldBackups keepCount d))"
  unfolding cleanupOldBackups_filter by (simp add: distinct_map_filter)

text \<open>
  Pruning keeps the \<open>keepCount\<close> greatest names, and every name it deletes is smaller
  than every name it keeps.
\<close>

lemma prune_keeps_greatest:
  assumes "distinct names"
  defines "files \<equiv> rev (sort names)"
  shows "set (filter (\<lambda>n. n \<notin> set (drop k files)) names) = set (take k files)"
    and "length (filter (\<lambda>n. n \<notin> set (drop k files)) names) \<le> k"
    and "\<forall>x \<in> set (drop k files). \<forall>y \<in> set (take k files). x < y"
proof -
  have df: "distinct files" "set files = set names"
    using assms by (simp_all add: files_def)
  have split: "files = take k files @ drop k files" by simp
  have disj: "set (take k files) \<inter> set (drop k files) = {}"
    using df(1) split by (metis distinct_append)
  have un: "set (take k files) \<union> set (drop k files) = set names"
    using df(2) split by (metis set_append)
  show s: "set (filter (\<lambda>n. n \<notin> set (drop k files)) names) = set (take k files)"
    using disj un by auto
  have "distinct (filter (\<lambda>n. n \<notin> set (drop k files)) names)"
    using assms(1) by simp
  then have "length (filter (\<lambda>n. n \<notin> set (drop k files)) names) = card (set (take k files))"
    using s distinct_card by metis
  also have "\<dots> \<le> length (take k files)" by (rule card_length)
  also have "\<dots> \<le> k" by simp
  finally show "length (filter (\<lambda>n. n \<notin> set (drop k files)) names) \<le> k" .
  have "sorted_wrt (<) (sort names)"
    using assms(1) by (simp add: strict_sorted_iff)
  then have "sorted_wrt (\<lambda>x y. y < x) files"
    by (simp add: files_def sorted_wrt_rev)
  then have "sorted_wrt (\<lambda>x y. y < x) (take k files @ drop k files)" by simp
  then show "\<forall>x \<in> set (drop k files). \<forall>y \<in> set (take k files). x < y"
    unfolding sorted_wrt_append by blast
qed

lemma createTimestampedBackup_existing:
  assumes "existsSync d (timestampedFile toISOString now)"
  shows "createTimestampedBackup toISOString content now d = d"
  using assms by (simp add: createTimestampedBackup_def Let_def)

lemma createTimestampedBackup_new:
  fixes content :: string
  assumes dist: "distinct (map fst d)" and new: "\<not> existsSync d (timestampedFile toISOString now)"
  defines "f \<equiv> timestampedFile toISOString now"
  defines "d' \<equiv> createTimestampedBackup toISOString content now d"
  defines "files \<equiv> rev (sort (dated_files d @ [f]))"
  shows "set (dated_files d') = set (take 48 files)"
    and "length (dated_files d') \<le> 48"
    and "\<forall>x \<in> set (drop 48 files). \<forall>y \<in> set (take 48 files). x < y"
    and "f \<in> set (take 48 files) \<Longrightarrow> map_get d' f = Some content"
    and "distinct (map fst d')"
proof -
  let ?d1 = "writeFileSync f content d"
  from new have fresh: "f \<notin> fst ` set d"
    by (simp add: existsSync_iff readdirSync_def f_def)
  then have d1: "?d1 = d @ [(f, content)]"
    by (simp add: writeFileSync_def map_set_fresh)
  have dated1: "dated_files ?d1 = dated_files d @ [f]"
    unfolding d1 by (simp add: dated_files_def readdirSync_def f_def timestampedFile_dated)
  have dist1: "distinct (map fst ?d1)"
    unfolding d1 using dist fresh by simp
  then have dd: "distinct (dated_files ?d1)"
    by (simp add: dated_files_def readdirSync_def)
  have d': "d' = cleanupOldBackups 48 ?d1"
    using new by (simp add: d'_def createTimestampedBackup_def Let_def f_def)
  have dated': "dated_files d' =
      filter (\<lambda>n. n \<notin> set (drop 48 files)) (dated_files d @ [f])"
    unfolding d' dated_files_cleanup dated1 files_def ..
  from prune_keeps_greatest[OF dd[unfolded dated1], of 48]
  show "set (dated_files d') = set (take 48 files)" "length (dated_files d') \<le> 48"
    "\<forall>x \<in> set (drop 48 files). \<forall>y \<in> set (take 48 files). x < y"
    unfolding dated' files_def by blast+
  show "distinct (map fst d')"
    unfolding d' by (rule distinct_cleanup[OF dist1])
  show "map_get d' f = Some content" if "f \<in> set (take 48 files)"
  proof -
    have "distinct files" using dd unfolding dated1 files_def by simp
    then have "set (take 48 files) \<inter> set (drop 48 files) = {}"
      by (metis append_take_drop_id distinct_append)
    with that have "f \<notin> set (drop 48 files)" by blast
    moreover have "map_of ?d1 f = Some content"
      by (simp add: writeFileSync_def map_of_map_set)
    moreover have "filter is_dated (readdirSync ?d1) = dated_files d @ [f]"
      using dated1 by (simp add: dated_files_def)
    ultimately show ?thesis
      unfolding d' cleanupOldBackups_filter map_get_def map_of_filter_names
      by (simp add: files_def)
  qed
qed

lemma saveBackup_snapshot:
  assumes "snapshot toISOString sessions_map workingDirs now = Some b"
  shows "saveBackup toISOString stringify sessions_map workingDirs now now' d =
         createTimestampedBackup toISOString (stringify b) now'
           (renameSync (backupFile @ ''.tmp'') backupFile
              (writeFileSync (backupFile @ ''.tmp'') (stringify b) d))"
  by (simp add: saveBackup_def assms Let_def)

lemma save_at_keeps_bound:
  assumes "distinct (map fst d)" "length (dated_files d) \<le> 48"
  shows "distinct (map fst (save_at toISOString stringify d i)) \<and>
         length (dated_files (save_at toISOString stringify d i)) \<le> 48"
proof (cases "snapshot toISOString (si_sessions i) (si_workingDirs i) (si_now i)")
  case None
  with assms show ?thesis by (simp add: save_at_def saveBackup_def)
next
  case (Some b)
  let ?d2 = "renameSync (backupFile @ ''.tmp'') backupFile
               (writeFileSync (backupFile @ ''.tmp'') (stringify b) d)"
  note c = canonical_write[where content = "stringify b", OF assms(1)]
  have eq: "save_at toISOString stringify d i =
            createTimestampedBackup toISOString (stringify b) (si_now' i) ?d2"
    by (simp add: save_at_def saveBackup_snapshot[OF Some])
  show ?thesis
  proof (cases "existsSync ?d2 (timestampedFile toISOString (si_now' i))")
    case True
    with c assms(2) show ?thesis
      unfolding eq by (simp add: createTimestampedBackup_existing)
  next
    case False
    from createTimestampedBackup_new(2,5)[where content = "stringify b", OF c(1) False] show ?thesis
      unfolding eq by simp
  qed
qed

lemma periodic_keeps_bound:
  assumes "distinct (map fst d)" "length (dated_files d) \<le> 48"
  shows "distinct (map fst (foldl (save_at toISOString stringify) d ticks)) \<and>
         length (dated_files (foldl (save_at toISOString stringify) d ticks)) \<le> 48"
  using assms
proof (induction ticks arbitrary: d)
  case Nil
  then show ?case by simp
next
  case (Cons i ticks)
  from save_at_keeps_bound[OF Cons.prems, of toISOString stringify i] Cons.IH
  show ?case by simp
qed

text \<open>
  Claim C7, as the code has it. Every \<^verbatim>\<open>saveBackup\<close> that builds its snapshot goes on
  to the dated copy, and the first save of \<^verbatim>\<open>startPeriodicBackup\<close> is such a save like
  those of the ticks. If a copy named for the minute is there already, it is left as it
  is and nothing is pruned. Otherwise the copy is written and the dated files are pruned
  to the 48 greatest names: at most 48 remain, every deleted name is smaller than every
  kept one, and the new copy, when it is among those kept, holds the snapshot. So a
  directory with at most 48 dated copies has at most 48 after the first save and any
  number of ticks.
\<close>

theorem saveBackup_dated_copies:
  assumes "distinct (map fst d)"
    and "snapshot toISOString sessions_map workingDirs now = Some b"
  shows
    "(let f = timestampedFile toISOString now';
          d' = saveBackup toISOString stringify sessions_map workingDirs now now' d;
          files = rev (sort (dated_files d @ [f]))
      in (existsSync d f \<longrightarrow> map_get d' f = map_get d f \<and> dated_files d' = dated_files d) \<and>
         (\<not> existsSync d f \<longrightarrow>
            set (dated_files d') = set (take 48 files) \<and>
            length (dated_files d') \<le> 48 \<and>
            (\<forall>x \<in> set (drop 48 files). \<forall>y \<in> set (take 48 files). x < y) \<and>
            (f \<in> set (take 48 files) \<longrightarrow> map_get d' f = Some (stringify b))) \<and>
         startPeriodicBackup toISOString stringify
           \<lparr>si_sessions = sessions_map, si_workingDirs = workingDirs,
            si_now = now, si_now' = now'\<rparr> [] d = d') \<and>
     (length (dated_files d) \<le> 48 \<longrightarrow>
        length (dated_files (startPeriodicBackup toISOString stringify first ticks d)) \<le> 48)"
proof -
  let ?f = "timestampedFile toISOString now'"
  let ?d2 = "renameSync (backupFile @ ''.tmp'') backupFile
               (writeFileSync (backupFile @ ''.tmp'') (stringify b) d)"
  note c = canonical_write[where content = "stringify b", OF assms(1)]
  note eq = saveBackup_snapshot[OF assms(2), of stringify now' d]
  have ex: "existsSync ?d2 ?f \<longleftrightarrow> existsSync d ?f"
    by (simp add: existsSync_def c(3)[OF timestampedFile_dated])
  have old: "map_get (createTimestampedBackup toISOString (stringify b) now' ?d2) ?f = map_get d ?f \<and>
             dated_files (createTimestampedBackup toISOString (stringify b) now' ?d2) = dated_files d"
    if "existsSync d ?f"
    using that ex c(2) c(3)[OF timestampedFile_dated]
    by (simp add: createTimestampedBackup_existing)
  have new: "set (dated_files (createTimestampedBackup toISOString (stringify b) now' ?d2)) =
               set (take 48 (rev (sort (dated_files d @ [?f])))) \<and>
             length (dated_files (createTimestampedBackup toISOString (stringify b) now' ?d2)) \<le> 48 \<and>
             (\<forall>x \<in> set (drop 48 (rev (sort (dated_files d @ [?f])))).
                \<forall>y \<in> set (take 48 (rev (sort (dated_files d @ [?f])))). x < y) \<and>
             (?f \<in> set (take 48 (rev (sort (dated_files d @ [?f])))) \<longrightarrow>
                map_get (createTimestampedBackup toISOString (stringify b) now' ?d2) ?f =
                  Some (stringify b))"
    if "\<not> existsSync d ?f"
  proof -
    from that ex have n: "\<not> existsSync ?d2 ?f" by simp
    from createTimestampedBackup_new(1,2,4)[where content = "stringify b", OF c(1) n]
      createTimestampedBackup_new(3)[OF c(1) n]
    show ?thesis
      unfolding c(2) by blast
  qed
  have start: "startPeriodicBackup toISOString stringify
           \<lparr>si_sessions = sessions_map, si_workingDirs = workingDirs,
            si_now = now, si_now' = now'\<rparr> [] d =
         saveBackup toISOString stringify sessions_map workingDirs now now' d"
    by (simp add: startPeriodicBackup_def save_at_def)
  have bound: "length (dated_files (startPeriodicBackup toISOString stringify first ticks d)) \<le> 48"
    if "length (dated_files d) \<le> 48"
  proof -
    from save_at_keeps_bound[OF assms(1) that, of toISOString stringify first]
    have "distinct (map fst (save_at toISOString stringify d first))"
      "length (dated_files (save_at toISOString stringify d first)) \<le> 48" by simp_all
    from periodic_keeps_bound[OF this, of toISOString stringify ticks] show ?thesis
      by (simp add: startPeriodicBackup_def)
  qed
  show ?thesis
    unfolding Let_def start eq using old new bound by blast
qed

theorem saveBackup_dated_copies_witness:
  "distinct (map fst ([] :: directory)) \<and>
   snapshot iso_example sessions_example dirs_example 1700000000000 = Some backup_example \<and>
   timestampedFile iso_example 1700000000000 = ''sessions-2023-11-14T22-13.json'' \<and>
   map_get (saveBackup iso_example stringify_example sessions_example dirs_example
              1700000000000 1700000000000 []) ''sessions-2023-11-14T22-13.json'' =
     Some ''snapshot of the example''"
proof -
  have k: "distinct (map fst ([] :: directory))" by simp
  note snap = snapshot_example
  have f: "timestampedFile iso_example 1700000000000 = ''sessions-2023-11-14T22-13.json''"
    by (simp add: timestampedFile_def minute_stamp_def iso_example_def)
  from saveBackup_dated_copies[OF k snap, of 1700000000000 stringify_example] k snap f
  show ?thesis
    by (simp add: Let_def f existsSync_def map_get_def dated_files_def readdirSync_def
        stringify_example_def)
qed

theorem startup_save_counterexample:
  "existsSync (startPeriodicBackup iso_example stringify_example first_save_example [] [])
     ''sessions-2023-11-14T22-13.json''"
proof -
  note snap = snapshot_example
  have f: "timestampedFile iso_example 1700000000000 = ''sessions-2023-11-14T22-13.json''"
    by (simp add: timestampedFile_def minute_stamp_def iso_example_def)
  have "startPeriodicBackup iso_example stringify_example first_save_example [] [] =
        [(''sessions.json'', ''snapshot of the example''),
         (''sessions-2023-11-14T22-13.json'', ''snapshot of the example'')]"
    by (simp add: startPeriodicBackup_def save_at_def first_save_example_def
        saveBackup_snapshot[OF snap] createTimestampedBackup_def f Let_def existsSync_def
        map_get_def writeFileSync_def renameSync_def unlinkSync_def map_delete_def backupFile_def
        cleanupOldBackups_def readdirSync_def is_dated_def startsWith_def endsWith_def
        stringify_example_def)
  then show ?thesis
    by (simp add: existsSync_def map_get_def)
qed

end
